theory Spec2Isabelle
  imports Main "HOL-Library.Word"
begin

unbundle bit_operations_syntax

section \<open>The process and its host\<close>

text \<open>
  The model follows \<^verbatim>\<open>msgpack-dump.c\<close> function by function.  The C types are those of
  an LP64 platform: \<^verbatim>\<open>unsigned char\<close> is 8 bits, \<^verbatim>\<open>int\<close> and \<^verbatim>\<open>unsigned\<close> are 32 bits,
  \<^verbatim>\<open>size_t\<close> and \<^verbatim>\<open>uint64_t\<close> are 64 bits.
\<close>

type_synonym byte = "8 word"

text \<open>
  What the descriptor delivers, one entry per byte or failed call: \<open>Byte b\<close> is a byte
  handed out by \<^verbatim>\<open>read(2)\<close>, \<open>Fail e\<close> is a call returning a negative value with
  \<^verbatim>\<open>strerror(errno) = e\<close>.  The end of the list is the call returning 0.
\<close>

datatype rd = Byte byte | Fail string

text \<open>
  \<^verbatim>\<open>struct ctx\<close>.  The field \<open>fd\<close> stands for the descriptor: it holds what is still
  to be read from it.
\<close>

record ctx =
  fd :: "rd list"
  offset :: "64 word"
  indent :: "32 word"
  eof :: bool

text \<open>The process: the cursor plus what has been written to the two output streams.\<close>

record proc = ctx +
  out :: string
  err :: string

text \<open>
  What the C standard leaves to the implementation and the code depends on:
  whether plain \<^verbatim>\<open>char\<close> is signed, the byte order of the host, which \<^verbatim>\<open>malloc\<close>
  requests succeed, and the text \<^verbatim>\<open>printf("%g")\<close> produces for a \<^verbatim>\<open>float\<close> or
  \<^verbatim>\<open>double\<close> object with a given bit pattern.
\<close>

record host =
  char_signed :: bool
  little_endian :: bool
  malloc_ok :: "nat \<Rightarrow> bool"
  fmt_g32 :: "32 word \<Rightarrow> string"
  fmt_g64 :: "64 word \<Rightarrow> string"

definition ctx_ctor :: "rd list \<Rightarrow> proc" where
  "ctx_ctor f = \<lparr>fd = f, offset = 0, indent = 0, eof = False, out = [], err = []\<rparr>"

definition ROLE_NONE :: int where "ROLE_NONE = -1"
definition ROLE_MAP_KEY :: int where "ROLE_MAP_KEY = -2"
definition ROLE_MAP_VALUE :: int where "ROLE_MAP_VALUE = -3"

section \<open>printf conversions\<close>

definition digit_char :: "nat \<Rightarrow> char" where
  "digit_char d = ''0123456789abcdef'' ! d"

text \<open>\<^verbatim>\<open>%u\<close>, \<^verbatim>\<open>%zu\<close>, \<^verbatim>\<open>PRIu64\<close>: the decimal digits of an unsigned value.\<close>

fun dec_nat :: "nat \<Rightarrow> string" where
  "dec_nat n = (if n < 10 then [digit_char n] else dec_nat (n div 10) @ [digit_char (n mod 10)])"

declare dec_nat.simps [simp del]

text \<open>\<^verbatim>\<open>%d\<close>, \<^verbatim>\<open>PRId64\<close>: the decimal digits of a signed value.\<close>

definition dec_int :: "int \<Rightarrow> string" where
  "dec_int i = (if i < 0 then CHR ''-'' # dec_nat (nat (- i)) else dec_nat (nat i))"

text \<open>\<^verbatim>\<open>%x\<close>: the lowercase hexadecimal digits of an unsigned value.\<close>

fun hex_nat :: "nat \<Rightarrow> string" where
  "hex_nat n = (if n < 16 then [digit_char n] else hex_nat (n div 16) @ [digit_char (n mod 16)])"

declare hex_nat.simps [simp del]

text \<open>\<^verbatim>\<open>%02x\<close>: at least two digits, padded with zeros on the left.\<close>

definition hex02 :: "nat \<Rightarrow> string" where
  "hex02 n = (let ds = hex_nat n in replicate (2 - length ds) CHR ''0'' @ ds)"

definition byte_char :: "byte \<Rightarrow> char" where
  "byte_char b = char_of (unat b)"

text \<open>
  \<^verbatim>\<open>%.*s\<close> with precision \<open>prec\<close> on a buffer holding \<open>data\<close>: the bytes before the
  first zero byte, at most \<open>prec\<close> of them.  A negative precision counts as none
  given; printf then reads on to the first zero byte, and the model stops at the end
  of the buffer, where the behaviour of the C program is undefined.
\<close>

definition printf_str :: "int \<Rightarrow> byte list \<Rightarrow> string" where
  "printf_str prec data =
     map byte_char (takeWhile (\<lambda>b. b \<noteq> 0) (if 0 \<le> prec then take (nat prec) data else data))"

definition puts :: "string \<Rightarrow> proc \<Rightarrow> proc" where
  "puts t s = s\<lparr>out := out s @ t\<rparr>"

definition eputs :: "string \<Rightarrow> proc \<Rightarrow> proc" where
  "eputs t s = s\<lparr>err := err s @ t\<rparr>"

section \<open>Indentation and separators\<close>

definition dump_indent :: "proc \<Rightarrow> proc" where
  "dump_indent s = puts (replicate (unat (indent s * 3)) CHR '' '') s"

definition dump_start :: "proc \<Rightarrow> int \<Rightarrow> proc" where
  "dump_start s role =
     (let s1 = (if role \<noteq> ROLE_MAP_VALUE then dump_indent s else s)
      in if role \<ge> 0 then puts (''['' @ dec_int role @ '']: '') s1 else s1)"

definition dump_stop :: "proc \<Rightarrow> int \<Rightarrow> proc" where
  "dump_stop s role =
     (if role = ROLE_MAP_KEY then puts '': '' s else puts [CHR 0x0A] s)"

section \<open>Error checked IO\<close>

text \<open>
  The loop of \<^verbatim>\<open>eread\<close>, one byte per round (a call of \<^verbatim>\<open>read\<close> that delivers
  several bytes is several rounds).  The result is the return value, the buffer as far
  as it was filled, and the process.
\<close>

function eread_loop :: "nat \<Rightarrow> nat \<Rightarrow> byte list \<Rightarrow> proc \<Rightarrow> bool \<times> byte list \<times> proc" where
  "eread_loop sz done buf s =
     (if done < sz then
        (case fd s of
           [] \<Rightarrow> (False, buf, s\<lparr>eof := True\<rparr>)
         | Fail e # rest \<Rightarrow>
             (False, buf,
              eputs (''Cannot read '' @ dec_nat sz @ '' bytes: '' @ e @ [CHR 0x0A]) (s\<lparr>fd := rest\<rparr>))
         | Byte b # rest \<Rightarrow>
             eread_loop sz (done + 1) (buf @ [b]) (s\<lparr>fd := rest, offset := offset s + 1\<rparr>))
      else (True, buf, s))"
  by pat_completeness auto
termination
  by (relation "measure (\<lambda>(sz, done, buf, s). sz - done)") auto

declare eread_loop.simps [simp del]

definition eread :: "proc \<Rightarrow> nat \<Rightarrow> bool \<times> byte list \<times> proc" where
  "eread s sz = (if eof s then (False, [], s) else eread_loop sz 0 [] s)"

section \<open>Scalars\<close>

definition dump_nil :: "proc \<Rightarrow> proc" where
  "dump_nil s = puts ''()'' s"

definition dump_false :: "proc \<Rightarrow> proc" where
  "dump_false s = puts ''false'' s"

definition dump_true :: "proc \<Rightarrow> proc" where
  "dump_true s = puts ''true'' s"

definition dump_int :: "proc \<Rightarrow> int \<Rightarrow> proc" where
  "dump_int s n = puts (dec_int n) s"

text \<open>
  The loop of \<^verbatim>\<open>read_varint\<close>.  It carries \<^verbatim>\<open>*n\<close> and \<^verbatim>\<open>byte\<close>, the byte read last, and
  returns both.
\<close>

function read_varint_loop ::
  "nat \<Rightarrow> nat \<Rightarrow> 64 word \<Rightarrow> byte \<Rightarrow> proc \<Rightarrow> bool \<times> 64 word \<times> byte \<times> proc" where
  "read_varint_loop lenlen cb n byte s =
     (if cb < lenlen then
        (let n1 = push_bit 8 n in
         case eread s 1 of
           (False, _, s1) \<Rightarrow> (False, n1, byte, s1)
         | (True, buf, s1) \<Rightarrow>
             read_varint_loop lenlen (cb + 1) (n1 OR ucast (hd buf)) (hd buf) s1)
      else (True, n, byte, s))"
  by pat_completeness auto
termination
  by (relation "measure (\<lambda>(lenlen, cb, n, byte, s). lenlen - cb)") auto

declare read_varint_loop.simps [simp del]

text \<open>
  \<^verbatim>\<open>byte\<close> is not initialised in the source; it is read only after the loop, and every
  caller passes \<open>lenlen \<ge> 1\<close>, so the loop has assigned it by then.  The model starts
  it at 0.
\<close>

definition read_varint :: "proc \<Rightarrow> nat \<Rightarrow> bool \<Rightarrow> bool \<times> 64 word \<times> proc" where
  "read_varint s lenlen sign =
     (case read_varint_loop lenlen 0 0 0 s of
        (False, n, byte, s1) \<Rightarrow> (False, n, s1)
      | (True, n, byte, s1) \<Rightarrow>
          (if sign then
             (let sign_extend = push_bit lenlen (NOT 0 :: 64 word)
              in (True, (if byte \<ge> 128 then n OR sign_extend else n), s1))
           else (True, n, s1)))"

definition read_varuint :: "proc \<Rightarrow> nat \<Rightarrow> bool \<times> 64 word \<times> proc" where
  "read_varuint s lenlen = read_varint s lenlen False"

definition dump_varint :: "proc \<Rightarrow> nat \<Rightarrow> bool \<Rightarrow> bool \<times> proc" where
  "dump_varint s lenlen sign =
     (case read_varint s lenlen sign of
        (False, n, s1) \<Rightarrow> (False, s1)
      | (True, n, s1) \<Rightarrow>
          (if sign then (True, puts (dec_int (sint n)) s1)
           else (True, puts (dec_nat (unat n)) s1)))"

definition dump_varuint :: "proc \<Rightarrow> nat \<Rightarrow> bool \<times> proc" where
  "dump_varuint s b = dump_varint s b False"

definition dump_varsint :: "proc \<Rightarrow> nat \<Rightarrow> bool \<times> proc" where
  "dump_varsint s b = dump_varint s b True"

definition dump_uint8 :: "proc \<Rightarrow> bool \<times> proc" where "dump_uint8 s = dump_varuint s 1"
definition dump_uint16 :: "proc \<Rightarrow> bool \<times> proc" where "dump_uint16 s = dump_varuint s 2"
definition dump_uint32 :: "proc \<Rightarrow> bool \<times> proc" where "dump_uint32 s = dump_varuint s 4"
definition dump_uint64 :: "proc \<Rightarrow> bool \<times> proc" where "dump_uint64 s = dump_varuint s 8"
definition dump_int8 :: "proc \<Rightarrow> bool \<times> proc" where "dump_int8 s = dump_varsint s 1"
definition dump_int16 :: "proc \<Rightarrow> bool \<times> proc" where "dump_int16 s = dump_varsint s 2"
definition dump_int32 :: "proc \<Rightarrow> bool \<times> proc" where "dump_int32 s = dump_varsint s 4"
definition dump_int64 :: "proc \<Rightarrow> bool \<times> proc" where "dump_int64 s = dump_varsint s 8"

text \<open>
  The value of a \<^verbatim>\<open>float\<close> or \<^verbatim>\<open>double\<close> object whose bytes, in address order, are
  \<open>buf\<close>: on a little-endian host the first byte is the least significant one.
\<close>

definition be_word :: "byte list \<Rightarrow> 'a::len word" where
  "be_word buf = foldl (\<lambda>n b. push_bit 8 n OR ucast b) 0 buf"

definition object_bits :: "host \<Rightarrow> byte list \<Rightarrow> 'a::len word" where
  "object_bits h buf = (if little_endian h then be_word (rev buf) else be_word buf)"

definition dump_float32 :: "host \<Rightarrow> proc \<Rightarrow> bool \<times> proc" where
  "dump_float32 h s =
     (case eread s 4 of
        (False, _, s1) \<Rightarrow> (False, s1)
      | (True, buf, s1) \<Rightarrow> (True, puts (fmt_g32 h (object_bits h buf)) s1))"

definition dump_float64 :: "host \<Rightarrow> proc \<Rightarrow> bool \<times> proc" where
  "dump_float64 h s =
     (case eread s 8 of
        (False, _, s1) \<Rightarrow> (False, s1)
      | (True, buf, s1) \<Rightarrow> (True, puts (fmt_g64 h (object_bits h buf)) s1))"

section \<open>Strings, binary blobs and extensions\<close>

text \<open>
  \<^verbatim>\<open>data[n]\<close> passed to \<^verbatim>\<open>%02x\<close>: \<^verbatim>\<open>data\<close> is a \<^verbatim>\<open>char *\<close>, so the byte is promoted to
  \<^verbatim>\<open>int\<close> through plain \<^verbatim>\<open>char\<close> and printed as an \<^verbatim>\<open>unsigned\<close>.
\<close>

definition char_arg :: "host \<Rightarrow> byte \<Rightarrow> 32 word" where
  "char_arg h b = (if char_signed h then scast b else ucast b)"

fun hex_loop :: "host \<Rightarrow> nat \<Rightarrow> byte list \<Rightarrow> string" where
  "hex_loop h n [] = []"
| "hex_loop h n (b # bs) =
     (if n > 0 then '' '' else '''') @ hex02 (unat (char_arg h b)) @ hex_loop h (n + 1) bs"

definition dump_data :: "host \<Rightarrow> proc \<Rightarrow> bool \<Rightarrow> nat \<Rightarrow> bool \<times> proc" where
  "dump_data h s is_str len =
     (if \<not> malloc_ok h len then
        (False, eputs (''Cannot alloc '' @ dec_nat len @ '' bytes'') s)
      else
        (case eread s len of
           (False, _, s1) \<Rightarrow> (False, s1)
         | (True, data, s1) \<Rightarrow>
             (if is_str then
                (True, puts ([CHR 0x22] @ printf_str (sint (word_of_nat len :: 32 word)) data
                             @ [CHR 0x22]) s1)
              else (True, puts (hex_loop h 0 data) s1))))"

definition dump_data_var :: "host \<Rightarrow> proc \<Rightarrow> bool \<Rightarrow> nat \<Rightarrow> bool \<times> proc" where
  "dump_data_var h s is_str lenlen =
     (case read_varuint s lenlen of
        (False, _, s1) \<Rightarrow> (False, s1)
      | (True, len, s1) \<Rightarrow> dump_data h s1 is_str (unat len))"

definition dump_ext :: "host \<Rightarrow> proc \<Rightarrow> nat \<Rightarrow> bool \<times> proc" where
  "dump_ext h s len =
     (case eread s 1 of
        (False, _, s1) \<Rightarrow> (False, s1)
      | (True, buf, s1) \<Rightarrow>
          (let s2 = puts (''Type'' @ dec_nat (unat (hd buf)) @ '':'') s1
           in (True, snd (dump_data h s2 False len))))"

definition dump_ext_var :: "host \<Rightarrow> proc \<Rightarrow> nat \<Rightarrow> bool \<times> proc" where
  "dump_ext_var h s lenlen =
     (case read_varuint s lenlen of
        (False, _, s1) \<Rightarrow> (False, s1)
      | (True, len, s1) \<Rightarrow> dump_ext h s1 (unat len))"


section \<open>The dispatcher\<close>

text \<open>
  The calls the branches of \<^verbatim>\<open>dump\<close> make, with their arguments.  \<^verbatim>\<open>nb_objs\<close> is a
  \<^verbatim>\<open>size_t\<close> in the source, compared with an \<^verbatim>\<open>unsigned\<close> counter; every caller passes
  a 4-bit field of the tag or a count read from 2 or 4 bytes, so the model keeps it as
  a 32-bit value (\<open>read_varuint_fits\<close> below shows that nothing is lost).
\<close>

datatype call =
    C_nil | C_false | C_true | C_int
  | C_uint8 | C_uint16 | C_uint32 | C_uint64
  | C_int8 | C_int16 | C_int32 | C_int64
  | C_float32 | C_float64
  | C_data bool nat | C_data_var bool nat
  | C_array "32 word" | C_array_var nat
  | C_map "32 word" | C_map_var nat
  | C_ext nat | C_ext_var nat

text \<open>
  The \<^verbatim>\<open>if\<close> ... \<^verbatim>\<open>else if\<close> chain of \<^verbatim>\<open>dump\<close>, one entry per branch in the order of
  the source: the test on the tag \<^verbatim>\<open>fst\<close> and the call the branch makes.  The first
  entry whose test holds is taken; the final \<^verbatim>\<open>else\<close> is the case that none holds.
\<close>

definition rules :: "((byte \<Rightarrow> bool) \<times> (byte \<Rightarrow> call)) list" where
  "rules =
    [(\<lambda>t. t = 0xc0, \<lambda>t. C_nil),
     (\<lambda>t. t = 0xc2, \<lambda>t. C_false),
     (\<lambda>t. t = 0xc3, \<lambda>t. C_true),
     (\<lambda>t. t AND 0x80 = 0, \<lambda>t. C_int),
     (\<lambda>t. t AND 0xe0 = 0xe0, \<lambda>t. C_int),
     (\<lambda>t. t = 0xcc, \<lambda>t. C_uint8),
     (\<lambda>t. t = 0xcd, \<lambda>t. C_uint16),
     (\<lambda>t. t = 0xce, \<lambda>t. C_uint32),
     (\<lambda>t. t = 0xcf, \<lambda>t. C_uint64),
     (\<lambda>t. t = 0xd0, \<lambda>t. C_int8),
     (\<lambda>t. t = 0xd1, \<lambda>t. C_int16),
     (\<lambda>t. t = 0xd2, \<lambda>t. C_int32),
     (\<lambda>t. t = 0xd3, \<lambda>t. C_int64),
     (\<lambda>t. t = 0xca, \<lambda>t. C_float32),
     (\<lambda>t. t = 0xcb, \<lambda>t. C_float64),
     (\<lambda>t. t AND 0xe0 = 0xa0, \<lambda>t. C_data True (unat (t AND 0x1f))),
     (\<lambda>t. t = 0xd9, \<lambda>t. C_data_var True 1),
     (\<lambda>t. t = 0xda, \<lambda>t. C_data_var True 2),
     (\<lambda>t. t = 0xdb, \<lambda>t. C_data_var True 4),
     (\<lambda>t. t = 0xc4, \<lambda>t. C_data_var False 1),
     (\<lambda>t. t = 0xc5, \<lambda>t. C_data_var False 2),
     (\<lambda>t. t = 0xc6, \<lambda>t. C_data_var False 4),
     (\<lambda>t. t AND 0xf0 = 0x90, \<lambda>t. C_array (ucast (t AND 0x0f))),
     (\<lambda>t. t = 0xdc, \<lambda>t. C_array_var 2),
     (\<lambda>t. t = 0xdd, \<lambda>t. C_array_var 4),
     (\<lambda>t. t AND 0xf0 = 0x80, \<lambda>t. C_map (ucast (t AND 0x0f))),
     (\<lambda>t. t = 0xde, \<lambda>t. C_map_var 2),
     (\<lambda>t. t = 0xdf, \<lambda>t. C_map_var 4),
     (\<lambda>t. t = 0xd4, \<lambda>t. C_ext 1),
     (\<lambda>t. t = 0xd5, \<lambda>t. C_ext 2),
     (\<lambda>t. t = 0xd6, \<lambda>t. C_ext 4),
     (\<lambda>t. t = 0xd7, \<lambda>t. C_ext 8),
     (\<lambda>t. t = 0xd8, \<lambda>t. C_ext 16),
     (\<lambda>t. t = 0xc7, \<lambda>t. C_ext_var 1),
     (\<lambda>t. t = 0xc8, \<lambda>t. C_ext_var 2),
     (\<lambda>t. t = 0xc9, \<lambda>t. C_ext_var 4)]"

definition dispatch :: "byte \<Rightarrow> call option" where
  "dispatch t = map_option (\<lambda>r. snd r t) (find (\<lambda>r. fst r t) rules)"


text \<open>
  The branches of \<^verbatim>\<open>dump\<close> that do not recurse.  The four container calls are made
  by \<^verbatim>\<open>dump\<close> itself and never reach this function.
\<close>

definition dump_leaf :: "host \<Rightarrow> proc \<Rightarrow> byte \<Rightarrow> call \<Rightarrow> bool \<times> proc" where
  "dump_leaf h s t c =
     (case c of
        C_nil \<Rightarrow> (True, dump_nil s)
      | C_false \<Rightarrow> (True, dump_false s)
      | C_true \<Rightarrow> (True, dump_true s)
      | C_int \<Rightarrow> (True, dump_int s (uint t))
      | C_uint8 \<Rightarrow> dump_uint8 s
      | C_uint16 \<Rightarrow> dump_uint16 s
      | C_uint32 \<Rightarrow> dump_uint32 s
      | C_uint64 \<Rightarrow> dump_uint64 s
      | C_int8 \<Rightarrow> dump_int8 s
      | C_int16 \<Rightarrow> dump_int16 s
      | C_int32 \<Rightarrow> dump_int32 s
      | C_int64 \<Rightarrow> dump_int64 s
      | C_float32 \<Rightarrow> dump_float32 h s
      | C_float64 \<Rightarrow> dump_float64 h s
      | C_data is_str len \<Rightarrow> dump_data h s is_str len
      | C_data_var is_str lenlen \<Rightarrow> dump_data_var h s is_str lenlen
      | C_ext len \<Rightarrow> dump_ext h s len
      | C_ext_var lenlen \<Rightarrow> dump_ext_var h s lenlen
      | _ \<Rightarrow> (False, s))"

function dump :: "host \<Rightarrow> proc \<Rightarrow> int \<Rightarrow> bool \<times> proc"
  and dump_array :: "host \<Rightarrow> proc \<Rightarrow> 32 word \<Rightarrow> bool \<times> proc"
  and dump_array_loop :: "host \<Rightarrow> 32 word \<Rightarrow> 32 word \<Rightarrow> proc \<Rightarrow> bool \<times> proc"
  and dump_array_var :: "host \<Rightarrow> proc \<Rightarrow> nat \<Rightarrow> bool \<times> proc"
  and dump_map :: "host \<Rightarrow> proc \<Rightarrow> 32 word \<Rightarrow> bool \<times> proc"
  and dump_map_loop :: "host \<Rightarrow> 32 word \<Rightarrow> 32 word \<Rightarrow> proc \<Rightarrow> bool \<times> proc"
  and dump_map_var :: "host \<Rightarrow> proc \<Rightarrow> nat \<Rightarrow> bool \<times> proc"
where
  "dump h s role =
     (case eread s 1 of
        (False, _, s1) \<Rightarrow> (eof s1, s1)
      | (True, buf, s1) \<Rightarrow>
          (let t = hd buf; s2 = dump_start s1 role in
           case (case dispatch t of
                   None \<Rightarrow> (False, eputs (''Bad tag '' @ hex02 (unat t) @ [CHR 0x0A]) s2)
                 | Some (C_array nb_objs) \<Rightarrow> dump_array h s2 nb_objs
                 | Some (C_array_var lenlen) \<Rightarrow> dump_array_var h s2 lenlen
                 | Some (C_map nb_objs) \<Rightarrow> dump_map h s2 nb_objs
                 | Some (C_map_var lenlen) \<Rightarrow> dump_map_var h s2 lenlen
                 | Some c \<Rightarrow> dump_leaf h s2 t c) of
             (False, s3) \<Rightarrow> (False, s3)
           | (True, s3) \<Rightarrow> (True, dump_stop s3 role)))"
| "dump_array h s nb_objs =
     (case dump_array_loop h nb_objs 0 ((puts [CHR ''['', CHR 0x0A] s)\<lparr>indent := indent s + 1\<rparr>) of
        (False, s1) \<Rightarrow> (False, s1)
      | (True, s1) \<Rightarrow> (True, puts '']'' (dump_indent (s1\<lparr>indent := indent s1 - 1\<rparr>))))"
| "dump_array_loop h nb_objs n s =
     (if n < nb_objs then
        (case dump h s (sint n) of
           (False, s1) \<Rightarrow> (False, s1)
         | (True, s1) \<Rightarrow> dump_array_loop h nb_objs (n + 1) s1)
      else (True, s))"
| "dump_array_var h s lenlen =
     (case read_varuint s lenlen of
        (False, _, s1) \<Rightarrow> (False, s1)
      | (True, len, s1) \<Rightarrow> dump_array h s1 (ucast len))"
| "dump_map h s nb_objs =
     (case dump_map_loop h nb_objs 0 ((puts [CHR ''{'', CHR 0x0A] s)\<lparr>indent := indent s + 1\<rparr>) of
        (False, s1) \<Rightarrow> (False, s1)
      | (True, s1) \<Rightarrow> (True, puts ''}'' (dump_indent (s1\<lparr>indent := indent s1 - 1\<rparr>))))"
| "dump_map_loop h nb_objs n s =
     (if n < nb_objs then
        (case dump h s ROLE_MAP_KEY of
           (False, s1) \<Rightarrow> (False, s1)
         | (True, s1) \<Rightarrow>
             (case dump h s1 ROLE_MAP_VALUE of
                (False, s2) \<Rightarrow> (False, s2)
              | (True, s2) \<Rightarrow> dump_map_loop h nb_objs (n + 1) s2))
      else (True, s))"
| "dump_map_var h s lenlen =
     (case read_varuint s lenlen of
        (False, _, s1) \<Rightarrow> (False, s1)
      | (True, len, s1) \<Rightarrow> dump_map h s1 (ucast len))"
  by pat_completeness auto


text \<open>
  The measure for the recursion of \<^verbatim>\<open>dump\<close>: what is left of the input, then the
  position in the call chain, then the rounds a loop has left.
\<close>

fun dump_measure where
  "dump_measure (Inl (Inl (h, s :: proc, role))) = (length (fd s), 0 :: nat, 0 :: nat)"
| "dump_measure (Inl (Inr (Inl (h, s, nb)))) = (length (fd s), 2, 0)"
| "dump_measure (Inl (Inr (Inr (h, nb :: 32 word, n :: 32 word, s)))) =
     (length (fd s), 1, unat nb - unat n)"
| "dump_measure (Inr (Inl (Inl (h, s, lenlen)))) = (length (fd s), 3, 0)"
| "dump_measure (Inr (Inl (Inr (h, s, nb)))) = (length (fd s), 2, 0)"
| "dump_measure (Inr (Inr (Inl (h, nb, n, s)))) = (length (fd s), 1, unat nb - unat n)"
| "dump_measure (Inr (Inr (Inr (h, s, lenlen)))) = (length (fd s), 3, 0)"


section \<open>The top-level loop\<close>

text \<open>
  The loop of \<^verbatim>\<open>main\<close>, from the point where the input is open.  The result is the exit
  status and the final process: status 1 is \<^verbatim>\<open>exit(1)\<close>, status 0 is reaching the end
  of \<^verbatim>\<open>main\<close>.
\<close>

function main_loop :: "host \<Rightarrow> proc \<Rightarrow> int \<times> proc" where
  "main_loop h s =
     (if \<not> eof s then
        (case dump h s ROLE_NONE of
           (False, s1) \<Rightarrow> (1, s1)
         | (True, s1) \<Rightarrow> main_loop h s1)
      else (0, s))"
  by pat_completeness auto

definition main :: "host \<Rightarrow> rd list \<Rightarrow> int \<times> proc" where
  "main h input = main_loop h (ctx_ctor input)"

section \<open>Declared string lengths\<close>

text \<open>
  The length a string header announces, read off the dispatcher: \<open>hdr\<close> is a tag that
  \<^verbatim>\<open>dump\<close> sends to \<^verbatim>\<open>dump_data\<close> as a string with the length in the tag, or a tag
  that it sends to \<^verbatim>\<open>dump_data_var\<close> as a string followed by the \<open>lenlen\<close> bytes of
  the big-endian length.
\<close>

definition str_declared :: "byte list \<Rightarrow> nat option" where
  "str_declared hdr =
     (case hdr of
        [] \<Rightarrow> None
      | t # lb \<Rightarrow>
          (case dispatch t of
             Some (C_data is_str len) \<Rightarrow> if is_str \<and> lb = [] then Some len else None
           | Some (C_data_var is_str lenlen) \<Rightarrow>
               if is_str \<and> length lb = lenlen then Some (unat (be_word lb :: 64 word)) else None
           | _ \<Rightarrow> None))"

section \<open>The calls of a run\<close>

text \<open>
  Which calls of \<^verbatim>\<open>dump\<close> a run makes.  \<open>in_dump h c s role\<close> says that the call
  \<open>c\<close> (a process and a role) is \<^verbatim>\<open>dump(s, role)\<close> itself or is made, directly or
  through nested containers, while \<^verbatim>\<open>dump(s, role)\<close> runs; the other predicates say
  the same of the functions \<^verbatim>\<open>dump\<close> recurses through.  The rules follow the source
  call by call: a loop reaches the call of an element only after the calls before it
  have returned true, and a container only after its tag, and its count where it has
  one, has been read.
\<close>

inductive
  in_dump :: "host \<Rightarrow> proc \<times> int \<Rightarrow> proc \<Rightarrow> int \<Rightarrow> bool" and
  in_dump_array :: "host \<Rightarrow> proc \<times> int \<Rightarrow> proc \<Rightarrow> 32 word \<Rightarrow> bool" and
  in_dump_array_loop :: "host \<Rightarrow> proc \<times> int \<Rightarrow> 32 word \<Rightarrow> 32 word \<Rightarrow> proc \<Rightarrow> bool" and
  in_dump_array_var :: "host \<Rightarrow> proc \<times> int \<Rightarrow> proc \<Rightarrow> nat \<Rightarrow> bool" and
  in_dump_map :: "host \<Rightarrow> proc \<times> int \<Rightarrow> proc \<Rightarrow> 32 word \<Rightarrow> bool" and
  in_dump_map_loop :: "host \<Rightarrow> proc \<times> int \<Rightarrow> 32 word \<Rightarrow> 32 word \<Rightarrow> proc \<Rightarrow> bool" and
  in_dump_map_var :: "host \<Rightarrow> proc \<times> int \<Rightarrow> proc \<Rightarrow> nat \<Rightarrow> bool"
  for h :: host and c :: "proc \<times> int"
where
  this_call: "c = (s, role) \<Longrightarrow> in_dump h c s role"
| in_array:
    "eread s 1 = (True, buf, s1) \<Longrightarrow> dispatch (hd buf) = Some (C_array nb_objs) \<Longrightarrow>
     in_dump_array h c (dump_start s1 role) nb_objs \<Longrightarrow> in_dump h c s role"
| in_array_var:
    "eread s 1 = (True, buf, s1) \<Longrightarrow> dispatch (hd buf) = Some (C_array_var lenlen) \<Longrightarrow>
     in_dump_array_var h c (dump_start s1 role) lenlen \<Longrightarrow> in_dump h c s role"
| in_map:
    "eread s 1 = (True, buf, s1) \<Longrightarrow> dispatch (hd buf) = Some (C_map nb_objs) \<Longrightarrow>
     in_dump_map h c (dump_start s1 role) nb_objs \<Longrightarrow> in_dump h c s role"
| in_map_var:
    "eread s 1 = (True, buf, s1) \<Longrightarrow> dispatch (hd buf) = Some (C_map_var lenlen) \<Longrightarrow>
     in_dump_map_var h c (dump_start s1 role) lenlen \<Longrightarrow> in_dump h c s role"
| array_body:
    "in_dump_array_loop h c nb_objs 0 ((puts [CHR ''['', CHR 0x0A] s)\<lparr>indent := indent s + 1\<rparr>) \<Longrightarrow>
     in_dump_array h c s nb_objs"
| array_element:
    "n < nb_objs \<Longrightarrow> in_dump h c s (sint n) \<Longrightarrow> in_dump_array_loop h c nb_objs n s"
| array_next:
    "n < nb_objs \<Longrightarrow> dump h s (sint n) = (True, s1) \<Longrightarrow>
     in_dump_array_loop h c nb_objs (n + 1) s1 \<Longrightarrow> in_dump_array_loop h c nb_objs n s"
| array_counted:
    "read_varuint s lenlen = (True, len, s1) \<Longrightarrow> in_dump_array h c s1 (ucast len) \<Longrightarrow>
     in_dump_array_var h c s lenlen"
| map_body:
    "in_dump_map_loop h c nb_objs 0 ((puts [CHR ''{'', CHR 0x0A] s)\<lparr>indent := indent s + 1\<rparr>) \<Longrightarrow>
     in_dump_map h c s nb_objs"
| map_key:
    "n < nb_objs \<Longrightarrow> in_dump h c s ROLE_MAP_KEY \<Longrightarrow> in_dump_map_loop h c nb_objs n s"
| map_value:
    "n < nb_objs \<Longrightarrow> dump h s ROLE_MAP_KEY = (True, s1) \<Longrightarrow>
     in_dump h c s1 ROLE_MAP_VALUE \<Longrightarrow> in_dump_map_loop h c nb_objs n s"
| map_next:
    "n < nb_objs \<Longrightarrow> dump h s ROLE_MAP_KEY = (True, s1) \<Longrightarrow>
     dump h s1 ROLE_MAP_VALUE = (True, s2) \<Longrightarrow>
     in_dump_map_loop h c nb_objs (n + 1) s2 \<Longrightarrow> in_dump_map_loop h c nb_objs n s"
| map_counted:
    "read_varuint s lenlen = (True, len, s1) \<Longrightarrow> in_dump_map h c s1 (ucast len) \<Longrightarrow>
     in_dump_map_var h c s lenlen"

text \<open>The same for the loop of \<^verbatim>\<open>main\<close> and for the program.\<close>

inductive in_main_loop :: "host \<Rightarrow> proc \<times> int \<Rightarrow> proc \<Rightarrow> bool"
  for h :: host and c :: "proc \<times> int"
where
  top_level: "\<not> eof s \<Longrightarrow> in_dump h c s ROLE_NONE \<Longrightarrow> in_main_loop h c s"
| top_next:
    "\<not> eof s \<Longrightarrow> dump h s ROLE_NONE = (True, s1) \<Longrightarrow> in_main_loop h c s1 \<Longrightarrow>
     in_main_loop h c s"

definition in_main :: "host \<Rightarrow> proc \<times> int \<Rightarrow> rd list \<Rightarrow> bool" where
  "in_main h c input = in_main_loop h c (ctx_ctor input)"

section \<open>Reading never puts bytes back\<close>

lemma eread_loop_len:
  "length (fd (snd (snd (eread_loop sz d buf s)))) \<le> length (fd s)"
proof (induction sz d buf s rule: eread_loop.induct)
  case (1 sz d buf s)
  show ?case
  proof (cases "d < sz")
    case False
    then show ?thesis by (simp add: eread_loop.simps)
  next
    case True
    show ?thesis
    proof (cases "fd s")
      case Nil
      with True show ?thesis by (simp add: eread_loop.simps [of sz d])
    next
      case (Cons r rest)
      show ?thesis
      proof (cases r)
        case (Byte b)
        with True Cons "1.IH" [of r rest b] show ?thesis
          by (simp add: eread_loop.simps [of sz d])
      next
        case (Fail e)
        with True Cons show ?thesis
          by (simp add: eread_loop.simps [of sz d] eputs_def)
      qed
    qed
  qed
qed

lemma eread_loop_consumes:
  "d < sz \<Longrightarrow> fst (eread_loop sz d buf s) \<Longrightarrow>
   length (fd (snd (snd (eread_loop sz d buf s)))) < length (fd s)"
proof -
  assume lt: "d < sz" and ok: "fst (eread_loop sz d buf s)"
  show ?thesis
  proof (cases "fd s")
    case Nil
    with lt ok show ?thesis by (simp add: eread_loop.simps [of sz d])
  next
    case (Cons r rest)
    show ?thesis
    proof (cases r)
      case (Fail e)
      with lt ok Cons show ?thesis by (simp add: eread_loop.simps [of sz d])
    next
      case (Byte b)
      let ?s' = "s\<lparr>fd := rest, offset := offset s + 1\<rparr>"
      have "length (fd (snd (snd (eread_loop sz (d + 1) (buf @ [b]) ?s')))) \<le> length (fd ?s')"
        by (rule eread_loop_len)
      with lt Cons Byte show ?thesis by (simp add: eread_loop.simps [of sz d])
    qed
  qed
qed

lemma eread_len: "length (fd (snd (snd (eread s sz)))) \<le> length (fd s)"
  by (simp add: eread_def eread_loop_len)

lemma eread_consumes:
  "0 < sz \<Longrightarrow> fst (eread s sz) \<Longrightarrow> length (fd (snd (snd (eread s sz)))) < length (fd s)"
  by (simp add: eread_def eread_loop_consumes split: if_splits)

lemma fd_puts [simp]: "fd (puts t s) = fd s"
  by (simp add: puts_def)

lemma fd_eputs [simp]: "fd (eputs t s) = fd s"
  by (simp add: eputs_def)

lemma fd_dump_indent [simp]: "fd (dump_indent s) = fd s"
  by (simp add: dump_indent_def)

lemma fd_dump_start [simp]: "fd (dump_start s role) = fd s"
  by (simp add: dump_start_def Let_def)

lemma fd_dump_stop [simp]: "fd (dump_stop s role) = fd s"
  by (simp add: dump_stop_def)

lemma read_varint_loop_len:
  "length (fd (snd (snd (snd (read_varint_loop lenlen cb n byte s))))) \<le> length (fd s)"
proof (induction lenlen cb n byte s rule: read_varint_loop.induct)
  case (1 lenlen cb n byte s)
  show ?case
  proof (cases "cb < lenlen")
    case False
    then show ?thesis by (simp add: read_varint_loop.simps)
  next
    case True
    obtain ok buf s1 where e: "eread s 1 = (ok, buf, s1)" by (cases "eread s 1") auto
    have le: "length (fd s1) \<le> length (fd s)" using eread_len [of s 1] e by simp
    show ?thesis
    proof (cases ok)
      case False
      with True e le show ?thesis by (simp add: read_varint_loop.simps [of lenlen cb])
    next
      case ok: True
      have "length (fd (snd (snd (snd (read_varint_loop lenlen (cb + 1)
              (push_bit 8 n OR ucast (hd buf)) (hd buf) s1))))) \<le> length (fd s1)"
        using "1.IH" True e ok by auto
      with True e ok le show ?thesis by (simp add: read_varint_loop.simps [of lenlen cb])
    qed
  qed
qed

lemma read_varint_len: "length (fd (snd (snd (read_varint s lenlen sign)))) \<le> length (fd s)"
proof (cases "read_varint_loop lenlen 0 0 0 s")
  case (fields ok n byte s1)
  with read_varint_loop_len [of lenlen 0 0 0 s] show ?thesis
    by (cases ok) (simp_all add: read_varint_def Let_def)
qed

lemma read_varuint_len: "length (fd (snd (snd (read_varuint s lenlen)))) \<le> length (fd s)"
  by (simp add: read_varuint_def read_varint_len)

lemma dump_varint_len: "length (fd (snd (dump_varint s lenlen sign))) \<le> length (fd s)"
proof (cases "read_varint s lenlen sign")
  case (fields ok n s1)
  with read_varint_len [of s lenlen sign] show ?thesis
    by (cases ok) (simp_all add: dump_varint_def)
qed

lemma dump_float32_len: "length (fd (snd (dump_float32 h s))) \<le> length (fd s)"
proof (cases "eread s 4")
  case (fields ok buf s1)
  with eread_len [of s 4] show ?thesis
    by (cases ok) (simp_all add: dump_float32_def)
qed

lemma dump_float64_len: "length (fd (snd (dump_float64 h s))) \<le> length (fd s)"
proof (cases "eread s 8")
  case (fields ok buf s1)
  with eread_len [of s 8] show ?thesis
    by (cases ok) (simp_all add: dump_float64_def)
qed

lemma dump_data_len: "length (fd (snd (dump_data h s is_str len))) \<le> length (fd s)"
proof (cases "eread s len")
  case (fields ok data s1)
  with eread_len [of s len] show ?thesis
    by (cases ok) (simp_all add: dump_data_def)
qed

lemma dump_data_var_len: "length (fd (snd (dump_data_var h s is_str lenlen))) \<le> length (fd s)"
proof (cases "read_varuint s lenlen")
  case (fields ok len s1)
  with read_varuint_len [of s lenlen] dump_data_len [of h s1 is_str "unat len"] show ?thesis
    by (cases ok) (simp_all add: dump_data_var_def)
qed

lemma dump_ext_len: "length (fd (snd (dump_ext h s len))) \<le> length (fd s)"
proof (cases "eread s 1")
  case (fields ok buf s1)
  with eread_len [of s 1]
    dump_data_len [of h "puts (''Type'' @ dec_nat (unat (hd buf)) @ '':'') s1" False len]
  show ?thesis
    by (cases ok) (simp_all add: dump_ext_def Let_def)
qed

lemma dump_ext_var_len: "length (fd (snd (dump_ext_var h s lenlen))) \<le> length (fd s)"
proof (cases "read_varuint s lenlen")
  case (fields ok len s1)
  with read_varuint_len [of s lenlen] dump_ext_len [of h s1 "unat len"] show ?thesis
    by (cases ok) (simp_all add: dump_ext_var_def)
qed

lemma dump_leaf_len: "length (fd (snd (dump_leaf h s t c))) \<le> length (fd s)"
  by (cases c)
     (simp_all add: dump_leaf_def dump_nil_def dump_false_def dump_true_def dump_int_def
        dump_uint8_def dump_uint16_def dump_uint32_def dump_uint64_def
        dump_int8_def dump_int16_def dump_int32_def dump_int64_def
        dump_varuint_def dump_varsint_def dump_varint_len dump_float32_len dump_float64_len
        dump_data_len dump_data_var_len dump_ext_len dump_ext_var_len)

lemma dump_len_partial:
  "dump_dump_array_dump_array_loop_dump_array_var_dump_map_dump_map_loop_dump_map_var_dom
     (Inl (Inl (h, s, role))) \<Longrightarrow> length (fd (snd (dump h s role))) \<le> length (fd s)"
  "dump_dump_array_dump_array_loop_dump_array_var_dump_map_dump_map_loop_dump_map_var_dom
     (Inl (Inr (Inl (h, s, nb)))) \<Longrightarrow> length (fd (snd (dump_array h s nb))) \<le> length (fd s)"
  "dump_dump_array_dump_array_loop_dump_array_var_dump_map_dump_map_loop_dump_map_var_dom
     (Inl (Inr (Inr (h, nb, n, s)))) \<Longrightarrow> length (fd (snd (dump_array_loop h nb n s))) \<le> length (fd s)"
  "dump_dump_array_dump_array_loop_dump_array_var_dump_map_dump_map_loop_dump_map_var_dom
     (Inr (Inl (Inl (h, s, lenlen)))) \<Longrightarrow> length (fd (snd (dump_array_var h s lenlen))) \<le> length (fd s)"
  "dump_dump_array_dump_array_loop_dump_array_var_dump_map_dump_map_loop_dump_map_var_dom
     (Inr (Inl (Inr (h, s, nb)))) \<Longrightarrow> length (fd (snd (dump_map h s nb))) \<le> length (fd s)"
  "dump_dump_array_dump_array_loop_dump_array_var_dump_map_dump_map_loop_dump_map_var_dom
     (Inr (Inr (Inl (h, nb, n, s)))) \<Longrightarrow> length (fd (snd (dump_map_loop h nb n s))) \<le> length (fd s)"
  "dump_dump_array_dump_array_loop_dump_array_var_dump_map_dump_map_loop_dump_map_var_dom
     (Inr (Inr (Inr (h, s, lenlen)))) \<Longrightarrow> length (fd (snd (dump_map_var h s lenlen))) \<le> length (fd s)"
proof (induction rule: dump_dump_array_dump_array_loop_dump_array_var_dump_map_dump_map_loop_dump_map_var.pinduct)
  case (1 h s role)
  obtain ok buf s1 where e: "eread s 1 = (ok, buf, s1)" by (cases "eread s 1") auto
  have le: "length (fd s1) \<le> length (fd s)" using eread_len [of s 1] e by simp
  show ?case
  proof (cases ok)
    case False
    with 1 e le show ?thesis by (simp add: dump.psimps)
  next
    case True
    let ?s2 = "dump_start s1 role"
    let ?r = "(case dispatch (hd buf) of
                   None \<Rightarrow> (False, eputs (''Bad tag '' @ hex02 (unat (hd buf)) @ [CHR 0x0A]) ?s2)
                 | Some (C_array nb_objs) \<Rightarrow> dump_array h ?s2 nb_objs
                 | Some (C_array_var lenlen) \<Rightarrow> dump_array_var h ?s2 lenlen
                 | Some (C_map nb_objs) \<Rightarrow> dump_map h ?s2 nb_objs
                 | Some (C_map_var lenlen) \<Rightarrow> dump_map_var h ?s2 lenlen
                 | Some c \<Rightarrow> dump_leaf h ?s2 (hd buf) c)"
    have r: "length (fd (snd ?r)) \<le> length (fd ?s2)"
    proof (cases "dispatch (hd buf)")
      case None
      then show ?thesis by simp
    next
      case (Some c)
      show ?thesis
      proof (cases c)
        case (C_array nb)
        with "1.IH"(1) [OF e [symmetric] eqTrueI [OF True] refl refl refl Some] Some show ?thesis
          by simp
      next
        case (C_array_var l)
        with "1.IH"(2) [OF e [symmetric] eqTrueI [OF True] refl refl refl Some] Some show ?thesis
          by simp
      next
        case (C_map nb)
        with "1.IH"(3) [OF e [symmetric] eqTrueI [OF True] refl refl refl Some] Some show ?thesis
          by simp
      next
        case (C_map_var l)
        with "1.IH"(4) [OF e [symmetric] eqTrueI [OF True] refl refl refl Some] Some show ?thesis
          by simp
      qed (use Some dump_leaf_len [of h "dump_start s1 role" "hd buf"] in simp_all)
    qed
    have "dump h s role = (case ?r of (False, s3) \<Rightarrow> (False, s3) | (True, s3) \<Rightarrow> (True, dump_stop s3 role))"
      using 1(1) e True by (simp add: dump.psimps Let_def)
    with r le show ?thesis
      by (cases ?r) (auto split: bool.splits)
  qed
next
  case (2 h s nb)
  then show ?case
    by (cases "dump_array_loop h nb 0 (puts [CHR ''['', CHR 0x0A] s\<lparr>indent := indent s + 1\<rparr>)")
       (auto simp: dump_array.psimps split: bool.splits)
next
  case (3 h nb n s)
  show ?case
  proof (cases "n < nb")
    case False
    with 3 show ?thesis by (simp add: dump_array_loop.psimps)
  next
    case True
    obtain ok s1 where d: "dump h s (sint n) = (ok, s1)" by (cases "dump h s (sint n)") auto
    from 3 True d have le: "length (fd s1) \<le> length (fd s)" by simp
    show ?thesis
    proof (cases ok)
      case False
      with 3 True d le show ?thesis by (simp add: dump_array_loop.psimps)
    next
      case ok: True
      from "3.IH"(2) [OF True d [symmetric] eqTrueI [OF ok]]
      have "length (fd (snd (dump_array_loop h nb (n + 1) s1))) \<le> length (fd s1)" by simp
      with 3 True d le ok show ?thesis by (simp add: dump_array_loop.psimps)
    qed
  qed
next
  case (4 h s lenlen)
  obtain ok len s1 where e: "read_varuint s lenlen = (ok, len, s1)"
    by (cases "read_varuint s lenlen") auto
  have le: "length (fd s1) \<le> length (fd s)" using read_varuint_len [of s lenlen] e by simp
  show ?case
  proof (cases ok)
    case False
    with 4 e le show ?thesis by (simp add: dump_array_var.psimps)
  next
    case True
    from "4.IH" [OF e [symmetric] eqTrueI [OF True] refl]
    have "length (fd (snd (dump_array h s1 (ucast len)))) \<le> length (fd s1)" by simp
    with 4 e le True show ?thesis by (simp add: dump_array_var.psimps)
  qed
next
  case (5 h s nb)
  then show ?case
    by (cases "dump_map_loop h nb 0 (puts [CHR ''{'', CHR 0x0A] s\<lparr>indent := indent s + 1\<rparr>)")
       (auto simp: dump_map.psimps split: bool.splits)
next
  case (6 h nb n s)
  show ?case
  proof (cases "n < nb")
    case False
    with 6 show ?thesis by (simp add: dump_map_loop.psimps)
  next
    case True
    obtain ok s1 where d: "dump h s ROLE_MAP_KEY = (ok, s1)"
      by (cases "dump h s ROLE_MAP_KEY") auto
    from 6 True d have le: "length (fd s1) \<le> length (fd s)" by simp
    show ?thesis
    proof (cases ok)
      case False
      with 6 True d le show ?thesis by (simp add: dump_map_loop.psimps)
    next
      case ok: True
      obtain ok2 s2 where d2: "dump h s1 ROLE_MAP_VALUE = (ok2, s2)"
        by (cases "dump h s1 ROLE_MAP_VALUE") auto
      from "6.IH"(2) [OF True d [symmetric] eqTrueI [OF ok]] d2
      have le2: "length (fd s2) \<le> length (fd s1)" by simp
      show ?thesis
      proof (cases ok2)
        case False
        with 6 True d le ok d2 le2 show ?thesis by (simp add: dump_map_loop.psimps)
      next
        case ok2: True
        from "6.IH"(3) [OF True d [symmetric] eqTrueI [OF ok] d2 [symmetric] eqTrueI [OF ok2]]
        have "length (fd (snd (dump_map_loop h nb (n + 1) s2))) \<le> length (fd s2)" by simp
        with 6 True d le ok d2 le2 ok2 show ?thesis by (simp add: dump_map_loop.psimps)
      qed
    qed
  qed
next
  case (7 h s lenlen)
  obtain ok len s1 where e: "read_varuint s lenlen = (ok, len, s1)"
    by (cases "read_varuint s lenlen") auto
  have le: "length (fd s1) \<le> length (fd s)" using read_varuint_len [of s lenlen] e by simp
  show ?case
  proof (cases ok)
    case False
    with 7 e le show ?thesis by (simp add: dump_map_var.psimps)
  next
    case True
    from "7.IH" [OF e [symmetric] eqTrueI [OF True] refl]
    have "length (fd (snd (dump_map h s1 (ucast len)))) \<le> length (fd s1)" by simp
    with 7 e le True show ?thesis by (simp add: dump_map_var.psimps)
  qed
qed

lemma loop_counter: "n < nb \<Longrightarrow> unat nb - unat (n + 1) < unat nb - unat n" for n nb :: "32 word"
  by unat_arith

lemma eread_consumes_eq:
  "(True, y) = eread s (Suc 0) \<Longrightarrow> (buf, s1) = y \<Longrightarrow> length (fd s1) < length (fd s)"
  using eread_consumes [of 1 s] by (cases "eread s (Suc 0)") auto

lemma read_varuint_len_eq:
  "(ok, y) = read_varuint s lenlen \<Longrightarrow> (len, s1) = y \<Longrightarrow> length (fd s1) \<le> length (fd s)"
  using read_varuint_len [of s lenlen] by (cases "read_varuint s lenlen") auto

lemma dump_len_dom_eq:
  "dump_dump_array_dump_array_loop_dump_array_var_dump_map_dump_map_loop_dump_map_var_dom
     (Inl (Inl (h, s, role))) \<Longrightarrow> (ok, s1) = dump h s role \<Longrightarrow> length (fd s1) \<le> length (fd s)"
  using dump_len_partial(1) [of h s role] by (cases "dump h s role") auto

lemma dump_dom_all:
  "All dump_dump_array_dump_array_loop_dump_array_var_dump_map_dump_map_loop_dump_map_var_dom"
  apply (relation "inv_image (less_than <*lex*> less_than <*lex*> less_than) dump_measure")
  apply (intro wf_inv_image wf_lex_prod wf_less_than)
  apply (auto dest: eread_consumes_eq read_varuint_len_eq simp: loop_counter)
  apply (fastforce dest: dump_len_dom_eq)+
  done

termination dump
  by (rule dump_dom_all)

declare dump.simps [simp del] dump_array.simps [simp del] dump_array_loop.simps [simp del]
  dump_array_var.simps [simp del] dump_map.simps [simp del] dump_map_loop.simps [simp del]
  dump_map_var.simps [simp del]

lemma dump_len: "length (fd (snd (dump h s role))) \<le> length (fd s)"
  by (rule dump_len_partial(1) [OF dump_dom_all [THEN spec]])

lemma dump_array_len: "length (fd (snd (dump_array h s nb))) \<le> length (fd s)"
  by (rule dump_len_partial(2) [OF dump_dom_all [THEN spec]])

lemma dump_array_var_len: "length (fd (snd (dump_array_var h s lenlen))) \<le> length (fd s)"
  by (rule dump_len_partial(4) [OF dump_dom_all [THEN spec]])

lemma dump_map_len: "length (fd (snd (dump_map h s nb))) \<le> length (fd s)"
  by (rule dump_len_partial(5) [OF dump_dom_all [THEN spec]])

lemma dump_map_var_len: "length (fd (snd (dump_map_var h s lenlen))) \<le> length (fd s)"
  by (rule dump_len_partial(7) [OF dump_dom_all [THEN spec]])

text \<open>A call of \<^verbatim>\<open>dump\<close> that succeeds without reaching the end of the input has
  consumed at least the tag byte.\<close>

lemma dump_progress:
  assumes "dump h s role = (True, s')" and "\<not> eof s'"
  shows "length (fd s') < length (fd s)"
proof -
  obtain ok buf s1 where e: "eread s 1 = (ok, buf, s1)" by (cases "eread s 1") auto
  show ?thesis
  proof (cases ok)
    case False
    with assms e show ?thesis by (auto simp: dump.simps)
  next
    case True
    have lt: "length (fd s1) < length (fd s)" using eread_consumes [of 1 s] e True by simp
    let ?s2 = "dump_start s1 role"
    let ?r = "(case dispatch (hd buf) of
                   None \<Rightarrow> (False, eputs (''Bad tag '' @ hex02 (unat (hd buf)) @ [CHR 0x0A]) ?s2)
                 | Some (C_array nb_objs) \<Rightarrow> dump_array h ?s2 nb_objs
                 | Some (C_array_var lenlen) \<Rightarrow> dump_array_var h ?s2 lenlen
                 | Some (C_map nb_objs) \<Rightarrow> dump_map h ?s2 nb_objs
                 | Some (C_map_var lenlen) \<Rightarrow> dump_map_var h ?s2 lenlen
                 | Some c \<Rightarrow> dump_leaf h ?s2 (hd buf) c)"
    have r: "length (fd (snd ?r)) \<le> length (fd ?s2)"
    proof (cases "dispatch (hd buf)")
      case None
      then show ?thesis by simp
    next
      case (Some c)
      then show ?thesis
        using dump_leaf_len [of h ?s2 "hd buf" c] dump_array_len [of h ?s2]
          dump_array_var_len [of h ?s2] dump_map_len [of h ?s2] dump_map_var_len [of h ?s2]
        by (cases c) simp_all
    qed
    have "dump h s role = (case ?r of (False, s3) \<Rightarrow> (False, s3) | (True, s3) \<Rightarrow> (True, dump_stop s3 role))"
      using e True by (simp add: dump.simps Let_def)
    with r lt assms(1) show ?thesis
      by (cases ?r) (auto split: bool.splits)
  qed
qed

lemma main_loop_decreases:
  assumes "(True, y) = dump h s role"
  shows "length (fd y) + (if eof y then 0 else 1) < Suc (length (fd s))"
proof (cases "eof y")
  case True
  with dump_len [of h s role] assms [symmetric] show ?thesis by simp
next
  case False
  with dump_progress [OF assms [symmetric]] show ?thesis by simp
qed

termination main_loop
  apply (relation "measure (\<lambda>(h, s). length (fd s) + (if eof s then 0 else 1))")
   apply simp
  apply (simp add: main_loop_decreases)
  done

declare main_loop.simps [simp del]

code_pred in_dump .

code_pred in_main_loop .

section \<open>The indent level\<close>

lemma indent_puts [simp]: "indent (puts t s) = indent s"
  by (simp add: puts_def)

lemma indent_eputs [simp]: "indent (eputs t s) = indent s"
  by (simp add: eputs_def)

lemma indent_dump_indent [simp]: "indent (dump_indent s) = indent s"
  by (simp add: dump_indent_def)

lemma indent_dump_start [simp]: "indent (dump_start s role) = indent s"
  by (simp add: dump_start_def Let_def)

lemma indent_dump_stop [simp]: "indent (dump_stop s role) = indent s"
  by (simp add: dump_stop_def)

lemma eread_loop_indent: "indent (snd (snd (eread_loop sz d buf s))) = indent s"
proof (induction sz d buf s rule: eread_loop.induct)
  case (1 sz d buf s)
  show ?case
  proof (cases "d < sz")
    case False
    then show ?thesis by (simp add: eread_loop.simps)
  next
    case True
    show ?thesis
    proof (cases "fd s")
      case Nil
      with True show ?thesis by (simp add: eread_loop.simps [of sz d])
    next
      case (Cons r rest)
      show ?thesis
      proof (cases r)
        case (Byte b)
        with True Cons "1.IH" [of r rest b] show ?thesis
          by (simp add: eread_loop.simps [of sz d])
      next
        case (Fail e)
        with True Cons show ?thesis
          by (simp add: eread_loop.simps [of sz d])
      qed
    qed
  qed
qed

lemma eread_indent: "indent (snd (snd (eread s sz))) = indent s"
  by (simp add: eread_def eread_loop_indent)

lemma read_varint_loop_indent:
  "indent (snd (snd (snd (read_varint_loop lenlen cb n byte s)))) = indent s"
proof (induction lenlen cb n byte s rule: read_varint_loop.induct)
  case (1 lenlen cb n byte s)
  show ?case
  proof (cases "cb < lenlen")
    case False
    then show ?thesis by (simp add: read_varint_loop.simps)
  next
    case True
    obtain ok buf s1 where e: "eread s 1 = (ok, buf, s1)" by (cases "eread s 1") auto
    have eq: "indent s1 = indent s" using eread_indent [of s 1] e by simp
    show ?thesis
    proof (cases ok)
      case False
      with True e eq show ?thesis by (simp add: read_varint_loop.simps [of lenlen cb])
    next
      case ok: True
      have "indent (snd (snd (snd (read_varint_loop lenlen (cb + 1)
              (push_bit 8 n OR ucast (hd buf)) (hd buf) s1)))) = indent s1"
        using "1.IH" True e ok by auto
      with True e ok eq show ?thesis by (simp add: read_varint_loop.simps [of lenlen cb])
    qed
  qed
qed

lemma read_varint_indent: "indent (snd (snd (read_varint s lenlen sign))) = indent s"
proof (cases "read_varint_loop lenlen 0 0 0 s")
  case (fields ok n byte s1)
  with read_varint_loop_indent [of lenlen 0 0 0 s] show ?thesis
    by (cases ok) (simp_all add: read_varint_def Let_def)
qed

lemma read_varuint_indent: "indent (snd (snd (read_varuint s lenlen))) = indent s"
  by (simp add: read_varuint_def read_varint_indent)

lemma dump_varint_indent: "indent (snd (dump_varint s lenlen sign)) = indent s"
proof (cases "read_varint s lenlen sign")
  case (fields ok n s1)
  with read_varint_indent [of s lenlen sign] show ?thesis
    by (cases ok) (simp_all add: dump_varint_def)
qed

lemma dump_float32_indent: "indent (snd (dump_float32 h s)) = indent s"
proof (cases "eread s 4")
  case (fields ok buf s1)
  with eread_indent [of s 4] show ?thesis
    by (cases ok) (simp_all add: dump_float32_def)
qed

lemma dump_float64_indent: "indent (snd (dump_float64 h s)) = indent s"
proof (cases "eread s 8")
  case (fields ok buf s1)
  with eread_indent [of s 8] show ?thesis
    by (cases ok) (simp_all add: dump_float64_def)
qed

lemma dump_data_indent: "indent (snd (dump_data h s is_str len)) = indent s"
proof (cases "eread s len")
  case (fields ok data s1)
  with eread_indent [of s len] show ?thesis
    by (cases ok) (simp_all add: dump_data_def)
qed

lemma dump_data_var_indent: "indent (snd (dump_data_var h s is_str lenlen)) = indent s"
proof (cases "read_varuint s lenlen")
  case (fields ok len s1)
  with read_varuint_indent [of s lenlen] dump_data_indent [of h s1 is_str "unat len"] show ?thesis
    by (cases ok) (simp_all add: dump_data_var_def)
qed

lemma dump_ext_indent: "indent (snd (dump_ext h s len)) = indent s"
proof (cases "eread s 1")
  case (fields ok buf s1)
  with eread_indent [of s 1]
    dump_data_indent [of h "puts (''Type'' @ dec_nat (unat (hd buf)) @ '':'') s1" False len]
  show ?thesis
    by (cases ok) (simp_all add: dump_ext_def Let_def)
qed

lemma dump_ext_var_indent: "indent (snd (dump_ext_var h s lenlen)) = indent s"
proof (cases "read_varuint s lenlen")
  case (fields ok len s1)
  with read_varuint_indent [of s lenlen] dump_ext_indent [of h s1 "unat len"] show ?thesis
    by (cases ok) (simp_all add: dump_ext_var_def)
qed

lemma dump_leaf_indent: "indent (snd (dump_leaf h s t c)) = indent s"
  by (cases c)
     (simp_all add: dump_leaf_def dump_nil_def dump_false_def dump_true_def dump_int_def
        dump_uint8_def dump_uint16_def dump_uint32_def dump_uint64_def
        dump_int8_def dump_int16_def dump_int32_def dump_int64_def
        dump_varuint_def dump_varsint_def dump_varint_indent dump_float32_indent
        dump_float64_indent dump_data_indent dump_data_var_indent dump_ext_indent
        dump_ext_var_indent)

text \<open>Every function of the recursion gives the indent level back when it succeeds.\<close>

lemma indent_balanced:
  "fst (dump h s role) \<longrightarrow> indent (snd (dump h s role)) = indent s"
  "fst (dump_array h s nb) \<longrightarrow> indent (snd (dump_array h s nb)) = indent s"
  "fst (dump_array_loop h nb n s) \<longrightarrow> indent (snd (dump_array_loop h nb n s)) = indent s"
  "fst (dump_array_var h s lenlen) \<longrightarrow> indent (snd (dump_array_var h s lenlen)) = indent s"
  "fst (dump_map h s nb) \<longrightarrow> indent (snd (dump_map h s nb)) = indent s"
  "fst (dump_map_loop h nb n s) \<longrightarrow> indent (snd (dump_map_loop h nb n s)) = indent s"
  "fst (dump_map_var h s lenlen) \<longrightarrow> indent (snd (dump_map_var h s lenlen)) = indent s"
proof (induction h s role and h s nb and h nb n s and h s lenlen and h s nb and h nb n s and h s lenlen
    rule: dump_dump_array_dump_array_loop_dump_array_var_dump_map_dump_map_loop_dump_map_var.induct)
  case (1 h s role)
  obtain ok buf s1 where e: "eread s 1 = (ok, buf, s1)" by (cases "eread s 1") auto
  have eq: "indent s1 = indent s" using eread_indent [of s 1] e by simp
  show ?case
  proof (cases ok)
    case False
    with e eq show ?thesis by (simp add: dump.simps)
  next
    case True
    let ?s2 = "dump_start s1 role"
    let ?r = "(case dispatch (hd buf) of
                   None \<Rightarrow> (False, eputs (''Bad tag '' @ hex02 (unat (hd buf)) @ [CHR 0x0A]) ?s2)
                 | Some (C_array nb_objs) \<Rightarrow> dump_array h ?s2 nb_objs
                 | Some (C_array_var lenlen) \<Rightarrow> dump_array_var h ?s2 lenlen
                 | Some (C_map nb_objs) \<Rightarrow> dump_map h ?s2 nb_objs
                 | Some (C_map_var lenlen) \<Rightarrow> dump_map_var h ?s2 lenlen
                 | Some c \<Rightarrow> dump_leaf h ?s2 (hd buf) c)"
    have r: "fst ?r \<longrightarrow> indent (snd ?r) = indent ?s2"
    proof (cases "dispatch (hd buf)")
      case None
      then show ?thesis by simp
    next
      case (Some c)
      show ?thesis
      proof (cases c)
        case (C_array nb)
        with "1.IH"(1) [OF e [symmetric] eqTrueI [OF True] refl refl refl Some] Some show ?thesis
          by simp
      next
        case (C_array_var l)
        with "1.IH"(2) [OF e [symmetric] eqTrueI [OF True] refl refl refl Some] Some show ?thesis
          by simp
      next
        case (C_map nb)
        with "1.IH"(3) [OF e [symmetric] eqTrueI [OF True] refl refl refl Some] Some show ?thesis
          by simp
      next
        case (C_map_var l)
        with "1.IH"(4) [OF e [symmetric] eqTrueI [OF True] refl refl refl Some] Some show ?thesis
          by simp
      qed (use Some dump_leaf_indent [of h "dump_start s1 role" "hd buf"] in simp_all)
    qed
    have "dump h s role = (case ?r of (False, s3) \<Rightarrow> (False, s3) | (True, s3) \<Rightarrow> (True, dump_stop s3 role))"
      using e True by (simp add: dump.simps Let_def)
    with r eq show ?thesis
      by (cases ?r) (auto split: bool.splits)
  qed
next
  case (2 h s nb)
  then show ?case
    by (cases "dump_array_loop h nb 0 (puts [CHR ''['', CHR 0x0A] s\<lparr>indent := indent s + 1\<rparr>)")
       (auto simp: dump_array.simps split: bool.splits)
next
  case (3 h nb n s)
  show ?case
  proof (cases "n < nb")
    case False
    then show ?thesis by (simp add: dump_array_loop.simps)
  next
    case True
    obtain ok s1 where d: "dump h s (sint n) = (ok, s1)" by (cases "dump h s (sint n)") auto
    show ?thesis
    proof (cases ok)
      case False
      with True d show ?thesis by (simp add: dump_array_loop.simps)
    next
      case ok: True
      from "3.IH"(1) [OF True] d ok have eq: "indent s1 = indent s" by simp
      from "3.IH"(2) [OF True d [symmetric] eqTrueI [OF ok]]
      have "fst (dump_array_loop h nb (n + 1) s1) \<longrightarrow>
            indent (snd (dump_array_loop h nb (n + 1) s1)) = indent s1" by simp
      with True d eq ok show ?thesis by (simp add: dump_array_loop.simps [of h nb n])
    qed
  qed
next
  case (4 h s lenlen)
  obtain ok len s1 where e: "read_varuint s lenlen = (ok, len, s1)"
    by (cases "read_varuint s lenlen") auto
  have eq: "indent s1 = indent s" using read_varuint_indent [of s lenlen] e by simp
  show ?case
  proof (cases ok)
    case False
    with e show ?thesis by (simp add: dump_array_var.simps)
  next
    case True
    from "4.IH" [OF e [symmetric] eqTrueI [OF True] refl]
    have "fst (dump_array h s1 (ucast len)) \<longrightarrow> indent (snd (dump_array h s1 (ucast len))) = indent s1"
      by simp
    with e eq True show ?thesis by (simp add: dump_array_var.simps)
  qed
next
  case (5 h s nb)
  then show ?case
    by (cases "dump_map_loop h nb 0 (puts [CHR ''{'', CHR 0x0A] s\<lparr>indent := indent s + 1\<rparr>)")
       (auto simp: dump_map.simps split: bool.splits)
next
  case (6 h nb n s)
  show ?case
  proof (cases "n < nb")
    case False
    then show ?thesis by (simp add: dump_map_loop.simps)
  next
    case True
    obtain ok s1 where d: "dump h s ROLE_MAP_KEY = (ok, s1)"
      by (cases "dump h s ROLE_MAP_KEY") auto
    show ?thesis
    proof (cases ok)
      case False
      with True d show ?thesis by (simp add: dump_map_loop.simps)
    next
      case ok: True
      from "6.IH"(1) [OF True] d ok have eq: "indent s1 = indent s" by simp
      obtain ok2 s2 where d2: "dump h s1 ROLE_MAP_VALUE = (ok2, s2)"
        by (cases "dump h s1 ROLE_MAP_VALUE") auto
      show ?thesis
      proof (cases ok2)
        case False
        with True d ok d2 show ?thesis by (simp add: dump_map_loop.simps [of h nb n])
      next
        case ok2: True
        from "6.IH"(2) [OF True d [symmetric] eqTrueI [OF ok]] d2 ok2
        have eq2: "indent s2 = indent s1" by simp
        from "6.IH"(3) [OF True d [symmetric] eqTrueI [OF ok] d2 [symmetric] eqTrueI [OF ok2]]
        have "fst (dump_map_loop h nb (n + 1) s2) \<longrightarrow>
              indent (snd (dump_map_loop h nb (n + 1) s2)) = indent s2" by simp
        with True d eq ok d2 eq2 ok2 show ?thesis by (simp add: dump_map_loop.simps [of h nb n])
      qed
    qed
  qed
next
  case (7 h s lenlen)
  obtain ok len s1 where e: "read_varuint s lenlen = (ok, len, s1)"
    by (cases "read_varuint s lenlen") auto
  have eq: "indent s1 = indent s" using read_varuint_indent [of s lenlen] e by simp
  show ?case
  proof (cases ok)
    case False
    with e show ?thesis by (simp add: dump_map_var.simps)
  next
    case True
    from "7.IH" [OF e [symmetric] eqTrueI [OF True] refl]
    have "fst (dump_map h s1 (ucast len)) \<longrightarrow> indent (snd (dump_map h s1 (ucast len))) = indent s1"
      by simp
    with e eq True show ?thesis by (simp add: dump_map_var.simps)
  qed
qed

section \<open>Reading from a stream of bytes\<close>

lemma eread_loop_bytes:
  "fd s = map Byte bs @ rest \<Longrightarrow> d + length bs = sz \<Longrightarrow>
   eread_loop sz d buf s =
     (True, buf @ bs, s\<lparr>fd := rest, offset := offset s + of_nat (length bs)\<rparr>)"
proof (induction bs arbitrary: d buf s)
  case Nil
  then show ?case by (simp add: eread_loop.simps [of sz sz] eread_loop.simps [of sz d])
next
  case (Cons b bs)
  let ?s' = "s\<lparr>fd := map Byte bs @ rest, offset := offset s + 1\<rparr>"
  have "eread_loop sz (d + 1) (buf @ [b]) ?s' =
          (True, (buf @ [b]) @ bs, ?s'\<lparr>fd := rest, offset := offset ?s' + of_nat (length bs)\<rparr>)"
    using Cons.prems by (intro Cons.IH) simp_all
  with Cons.prems show ?case
    by (simp add: eread_loop.simps [of sz d] add.assoc)
qed

lemma eread_loop_short:
  "fd s = map Byte bs \<Longrightarrow> d + length bs < sz \<Longrightarrow>
   eread_loop sz d buf s =
     (False, buf @ bs, s\<lparr>fd := [], offset := offset s + of_nat (length bs), eof := True\<rparr>)"
proof (induction bs arbitrary: d buf s)
  case Nil
  then show ?case by (simp add: eread_loop.simps [of sz sz] eread_loop.simps [of sz d])
next
  case (Cons b bs)
  let ?s' = "s\<lparr>fd := map Byte bs, offset := offset s + 1\<rparr>"
  have "eread_loop sz (d + 1) (buf @ [b]) ?s' =
          (False, (buf @ [b]) @ bs,
           ?s'\<lparr>fd := [], offset := offset ?s' + of_nat (length bs), eof := True\<rparr>)"
    using Cons.prems by (intro Cons.IH) simp_all
  with Cons.prems show ?case
    by (simp add: eread_loop.simps [of sz d] add.assoc)
qed

lemma eread_bytes:
  "\<not> eof s \<Longrightarrow> fd s = map Byte bs @ rest \<Longrightarrow> length bs = sz \<Longrightarrow>
   eread s sz = (True, bs, s\<lparr>fd := rest, offset := offset s + of_nat sz\<rparr>)"
  using eread_loop_bytes [of s bs rest 0 sz "[]"] by (simp add: eread_def)

lemma eread_short:
  "\<not> eof s \<Longrightarrow> fd s = map Byte bs \<Longrightarrow> length bs < sz \<Longrightarrow>
   eread s sz = (False, bs, s\<lparr>fd := [], offset := offset s + of_nat (length bs), eof := True\<rparr>)"
  using eread_loop_short [of s bs 0 sz "[]"] by (simp add: eread_def)

lemma read_varint_loop_bytes:
  "\<not> eof s \<Longrightarrow> fd s = map Byte lb @ rest \<Longrightarrow> cb + length lb = lenlen \<Longrightarrow>
   read_varint_loop lenlen cb n byte s =
     (True, foldl (\<lambda>n b. push_bit 8 n OR ucast b) n lb, last (byte # lb),
      s\<lparr>fd := rest, offset := offset s + of_nat (length lb)\<rparr>)"
proof (induction lb arbitrary: cb n byte s)
  case Nil
  then show ?case by (simp add: read_varint_loop.simps [of lenlen lenlen])
next
  case (Cons b lb)
  let ?s' = "s\<lparr>fd := map Byte lb @ rest, offset := offset s + 1\<rparr>"
  have e: "eread s 1 = (True, [b], ?s')"
    using eread_bytes [of s "[b]" "map Byte lb @ rest" 1] Cons.prems by simp
  have "read_varint_loop lenlen (cb + 1) (push_bit 8 n OR ucast b) b ?s' =
          (True, foldl (\<lambda>n b. push_bit 8 n OR ucast b) (push_bit 8 n OR ucast b) lb, last (b # lb),
           ?s'\<lparr>fd := rest, offset := offset ?s' + of_nat (length lb)\<rparr>)"
    using Cons.prems by (intro Cons.IH) simp_all
  with Cons.prems e show ?case
    by (simp add: read_varint_loop.simps [of lenlen cb] Let_def add.assoc)
qed

lemma read_varuint_bytes:
  "\<not> eof s \<Longrightarrow> fd s = map Byte lb @ rest \<Longrightarrow> length lb = lenlen \<Longrightarrow>
   read_varuint s lenlen =
     (True, be_word lb, s\<lparr>fd := rest, offset := offset s + of_nat lenlen\<rparr>)"
  using read_varint_loop_bytes [of s lb rest 0 lenlen 0 0]
  by (simp add: read_varuint_def read_varint_def be_word_def)

lemma dump_data_short:
  assumes "\<not> eof s" and "fd s = map Byte payload" and "length payload < len"
  shows "fst (dump_data h s is_str len) = False" and "out (snd (dump_data h s is_str len)) = out s"
  using eread_short [OF assms] by (simp_all add: dump_data_def eputs_def)

lemma eof_dump_start [simp]: "eof (dump_start s role) = eof s"
  by (simp add: dump_start_def dump_indent_def puts_def Let_def)

lemma out_dump_start_moved [simp]:
  "out (dump_start (s\<lparr>fd := f, offset := p\<rparr>) role) = out (dump_start s role)"
  by (simp add: dump_start_def dump_indent_def puts_def Let_def)

lemma str_declared_cases:
  assumes "str_declared hdr = Some len"
  obtains t where "hdr = [t]" and "dispatch t = Some (C_data True len)"
  | t lb where "hdr = t # lb" and "dispatch t = Some (C_data_var True (length lb))"
      and "len = unat (be_word lb :: 64 word)"
  using assms
  by (auto simp: str_declared_def split: list.splits option.splits call.splits if_splits)

lemma truncated_string_dump:
  assumes ne: "\<not> eof s" and f: "fd s = map Byte (hdr @ payload)"
    and d: "str_declared hdr = Some len" and short: "length payload < len"
  shows "fst (dump h s role) = False \<and> out (snd (dump h s role)) = out (dump_start s role)"
  using d
proof (cases rule: str_declared_cases)
  case (1 t)
  let ?s1 = "s\<lparr>fd := map Byte payload, offset := offset s + 1\<rparr>"
  have e: "eread s 1 = (True, [t], ?s1)"
    using eread_bytes [of s "[t]" "map Byte payload" 1] ne f 1 by simp
  have "\<not> eof (dump_start ?s1 role)" "fd (dump_start ?s1 role) = map Byte payload"
    using ne by simp_all
  from dump_data_short [OF this short, of h True] e 1 show ?thesis
    by (cases "dump_data h (dump_start ?s1 role) True len")
       (simp add: dump.simps dump_leaf_def)
next
  case (2 t lb)
  let ?s1 = "s\<lparr>fd := map Byte lb @ map Byte payload, offset := offset s + 1\<rparr>"
  have e: "eread s 1 = (True, [t], ?s1)"
    using eread_bytes [of s "[t]" "map Byte lb @ map Byte payload" 1] ne f 2 by simp
  let ?s2 = "dump_start ?s1 role"
  have s2: "\<not> eof ?s2" "fd ?s2 = map Byte lb @ map Byte payload"
    using ne by simp_all
  let ?s3 = "?s2\<lparr>fd := map Byte payload, offset := offset ?s2 + of_nat (length lb)\<rparr>"
  have v: "read_varuint ?s2 (length lb) = (True, be_word lb, ?s3)"
    using read_varuint_bytes [OF s2 refl] .
  have "\<not> eof ?s3" "fd ?s3 = map Byte payload"
    using ne by simp_all
  from dump_data_short [OF this, of len h True] short 2 e v show ?thesis
    by (cases "dump_data h ?s3 True len")
       (simp add: dump.simps dump_leaf_def dump_data_var_def)
qed

lemma err_dump_start [simp]: "err (dump_start s role) = err s"
  by (simp add: dump_start_def dump_indent_def puts_def Let_def)

lemma dump_data_short_err:
  assumes "\<not> eof s" and "fd s = map Byte payload" and "length payload < len"
  shows "err (snd (dump_data h s is_str len)) =
           (if malloc_ok h len then err s else err s @ ''Cannot alloc '' @ dec_nat len @ '' bytes'')"
  using eread_short [OF assms] by (simp add: dump_data_def eputs_def)

lemma truncated_string_err:
  assumes ne: "\<not> eof s" and f: "fd s = map Byte (hdr @ payload)"
    and d: "str_declared hdr = Some len" and short: "length payload < len"
  shows "err (snd (dump h s role)) =
           (if malloc_ok h len then err s else err s @ ''Cannot alloc '' @ dec_nat len @ '' bytes'')"
  using d
proof (cases rule: str_declared_cases)
  case (1 t)
  let ?s1 = "s\<lparr>fd := map Byte payload, offset := offset s + 1\<rparr>"
  have e: "eread s 1 = (True, [t], ?s1)"
    using eread_bytes [of s "[t]" "map Byte payload" 1] ne f 1 by simp
  have "\<not> eof (dump_start ?s1 role)" "fd (dump_start ?s1 role) = map Byte payload"
    using ne by simp_all
  from dump_data_short_err [OF this short, of h True] dump_data_short(1) [OF this short, of h True]
    e 1 show ?thesis
    by (cases "dump_data h (dump_start ?s1 role) True len")
       (simp add: dump.simps dump_leaf_def)
next
  case (2 t lb)
  let ?s1 = "s\<lparr>fd := map Byte lb @ map Byte payload, offset := offset s + 1\<rparr>"
  have e: "eread s 1 = (True, [t], ?s1)"
    using eread_bytes [of s "[t]" "map Byte lb @ map Byte payload" 1] ne f 2 by simp
  let ?s2 = "dump_start ?s1 role"
  have s2: "\<not> eof ?s2" "fd ?s2 = map Byte lb @ map Byte payload"
    using ne by simp_all
  let ?s3 = "?s2\<lparr>fd := map Byte payload, offset := offset ?s2 + of_nat (length lb)\<rparr>"
  have v: "read_varuint ?s2 (length lb) = (True, be_word lb, ?s3)"
    using read_varuint_bytes [OF s2 refl] .
  have s3: "\<not> eof ?s3" "fd ?s3 = map Byte payload"
    using ne by simp_all
  from dump_data_short_err [OF s3, of len h True] dump_data_short(1) [OF s3, of len h True]
    short 2 e v show ?thesis
    by (cases "dump_data h ?s3 True len")
       (simp add: dump.simps dump_leaf_def dump_data_var_def)
qed

section \<open>Counts fit 32 bits\<close>

lemma read_varint_loop_bits:
  "read_varint_loop lenlen cb n byte s = (True, n', byte', s') \<Longrightarrow>
   (\<forall>k. bit n k \<longrightarrow> k < 8 * cb) \<Longrightarrow> cb \<le> lenlen \<Longrightarrow>
   (\<forall>k. bit n' k \<longrightarrow> k < 8 * lenlen)"
proof (induction lenlen cb n byte s rule: read_varint_loop.induct)
  case (1 lenlen cb n byte s)
  show ?case
  proof (cases "cb < lenlen")
    case False
    with "1.prems" show ?thesis by (simp add: read_varint_loop.simps [of lenlen cb])
  next
    case True
    obtain ok buf s1 where e: "eread s 1 = (ok, buf, s1)" by (cases "eread s 1") auto
    show ?thesis
    proof (cases ok)
      case False
      with True e "1.prems"(1) show ?thesis
        by (simp add: read_varint_loop.simps [of lenlen cb])
    next
      case ok: True
      let ?n1 = "push_bit 8 n OR ucast (hd buf) :: 64 word"
      have run: "read_varint_loop lenlen (cb + 1) ?n1 (hd buf) s1 = (True, n', byte', s')"
        using True e ok "1.prems"(1) by (simp add: read_varint_loop.simps [of lenlen cb])
      have bits: "\<forall>k. bit ?n1 k \<longrightarrow> k < 8 * (cb + 1)"
      proof (intro allI impI)
        fix k assume "bit ?n1 k"
        then consider "8 \<le> k" "bit n (k - 8)" | "k < 8"
          by (auto simp: bit_or_iff bit_push_bit_iff bit_ucast_iff dest: bit_imp_le_length)
        then show "k < 8 * (cb + 1)"
        proof cases
          case 1
          with "1.prems"(2) have "k - 8 < 8 * cb" by blast
          with 1 show ?thesis by simp
        next
          case 2
          then show ?thesis by simp
        qed
      qed
      from "1.IH" [OF True refl e [symmetric] eqTrueI [OF ok] refl run bits] True
      show ?thesis by simp
    qed
  qed
qed

text \<open>
  A count read from at most four bytes fits an \<^verbatim>\<open>unsigned\<close>: passing it on as a 32-bit
  value loses nothing.
\<close>

lemma read_varuint_fits:
  assumes "read_varuint s lenlen = (True, len, s')" and "lenlen \<le> 4"
  shows "ucast (ucast len :: 32 word) = len"
proof -
  obtain byte where "read_varint_loop lenlen 0 0 0 s = (True, len, byte, s')"
    using assms(1)
    by (cases "read_varint_loop lenlen 0 0 0 s")
       (auto simp: read_varuint_def read_varint_def split: bool.splits)
  from read_varint_loop_bits [OF this] have "\<forall>k. bit len k \<longrightarrow> k < 8 * lenlen" by simp
  with assms(2) have small: "bit len k \<Longrightarrow> k < 32" for k by fastforce
  show ?thesis
    by (rule bit_word_eqI) (auto simp: bit_ucast_iff dest: small)
qed

section \<open>How a failing call leaves the process\<close>

lemma eread_loop_fail:
  "\<not> fst (eread_loop sz d buf s) \<Longrightarrow>
   eof (snd (snd (eread_loop sz d buf s))) \<or>
   length (fd (snd (snd (eread_loop sz d buf s)))) < length (fd s)"
proof (induction sz d buf s rule: eread_loop.induct)
  case (1 sz d buf s)
  show ?case
  proof (cases "d < sz")
    case False
    with "1.prems" show ?thesis by (simp add: eread_loop.simps)
  next
    case True
    show ?thesis
    proof (cases "fd s")
      case Nil
      with True show ?thesis by (simp add: eread_loop.simps [of sz d])
    next
      case (Cons r rest)
      show ?thesis
      proof (cases r)
        case (Byte b)
        with True Cons "1.IH" [of r rest b] "1.prems" show ?thesis
          by (auto simp: eread_loop.simps [of sz d])
      next
        case (Fail e)
        with True Cons show ?thesis
          by (simp add: eread_loop.simps [of sz d])
      qed
    qed
  qed
qed

lemma eread_loop_ok:
  "fst (eread_loop sz d buf s) \<Longrightarrow>
   eof (snd (snd (eread_loop sz d buf s))) = eof s \<and>
   err (snd (snd (eread_loop sz d buf s))) = err s"
proof (induction sz d buf s rule: eread_loop.induct)
  case (1 sz d buf s)
  show ?case
  proof (cases "d < sz")
    case False
    then show ?thesis by (simp add: eread_loop.simps)
  next
    case True
    show ?thesis
    proof (cases "fd s")
      case Nil
      with True "1.prems" show ?thesis by (simp add: eread_loop.simps [of sz d])
    next
      case (Cons r rest)
      show ?thesis
      proof (cases r)
        case (Byte b)
        with True Cons "1.IH" [of r rest b] "1.prems" show ?thesis
          by (auto simp: eread_loop.simps [of sz d])
      next
        case (Fail e)
        with True Cons "1.prems" show ?thesis
          by (simp add: eread_loop.simps [of sz d])
      qed
    qed
  qed
qed

lemma eread_fail:
  "\<not> eof s \<Longrightarrow> eread s sz = (False, buf, s') \<Longrightarrow> eof s' \<or> length (fd s') < length (fd s)"
  using eread_loop_fail [of sz 0 "[]" s] by (simp add: eread_def)

lemma eread_ok:
  "eread s sz = (True, buf, s') \<Longrightarrow> \<not> eof s \<and> \<not> eof s' \<and> err s' = err s"
  using eread_loop_ok [of sz 0 "[]" s] by (auto simp: eread_def split: if_splits)

lemma eread_le: "eread s sz = (ok, buf, s') \<Longrightarrow> length (fd s') \<le> length (fd s)"
  using eread_len [of s sz] by simp

lemma read_varint_loop_fail:
  "\<not> eof s \<Longrightarrow> read_varint_loop lenlen cb n byte s = (False, n', byte', s') \<Longrightarrow>
   eof s' \<or> length (fd s') < length (fd s)"
proof (induction lenlen cb n byte s rule: read_varint_loop.induct)
  case (1 lenlen cb n byte s)
  show ?case
  proof (cases "cb < lenlen")
    case False
    with "1.prems" show ?thesis by (simp add: read_varint_loop.simps [of lenlen cb])
  next
    case True
    obtain ok buf s1 where e: "eread s 1 = (ok, buf, s1)" by (cases "eread s 1") auto
    show ?thesis
    proof (cases ok)
      case False
      with True e "1.prems" eread_fail [of s 1 buf s1] show ?thesis
        by (simp add: read_varint_loop.simps [of lenlen cb])
    next
      case ok: True
      let ?n1 = "push_bit 8 n OR ucast (hd buf) :: 64 word"
      have run: "read_varint_loop lenlen (cb + 1) ?n1 (hd buf) s1 = (False, n', byte', s')"
        using True e ok "1.prems"(2) by (simp add: read_varint_loop.simps [of lenlen cb])
      have ne: "\<not> eof s1" using eread_ok [of s 1 buf s1] e ok by simp
      from "1.IH" [OF True refl e [symmetric] eqTrueI [OF ok] refl ne run]
        eread_le [OF e]
      show ?thesis by auto
    qed
  qed
qed

lemma read_varint_loop_ok:
  "\<not> eof s \<Longrightarrow> read_varint_loop lenlen cb n byte s = (True, n', byte', s') \<Longrightarrow>
   \<not> eof s' \<and> err s' = err s"
proof (induction lenlen cb n byte s rule: read_varint_loop.induct)
  case (1 lenlen cb n byte s)
  show ?case
  proof (cases "cb < lenlen")
    case False
    with "1.prems" show ?thesis by (simp add: read_varint_loop.simps [of lenlen cb])
  next
    case True
    obtain ok buf s1 where e: "eread s 1 = (ok, buf, s1)" by (cases "eread s 1") auto
    show ?thesis
    proof (cases ok)
      case False
      with True e "1.prems" show ?thesis
        by (simp add: read_varint_loop.simps [of lenlen cb])
    next
      case ok: True
      let ?n1 = "push_bit 8 n OR ucast (hd buf) :: 64 word"
      have run: "read_varint_loop lenlen (cb + 1) ?n1 (hd buf) s1 = (True, n', byte', s')"
        using True e ok "1.prems"(2) by (simp add: read_varint_loop.simps [of lenlen cb])
      have ne: "\<not> eof s1 \<and> err s1 = err s" using eread_ok [of s 1 buf s1] e ok by simp
      from "1.IH" [OF True refl e [symmetric] eqTrueI [OF ok] refl _ run] ne
      show ?thesis by auto
    qed
  qed
qed

lemma read_varint_fail:
  assumes "\<not> eof s" and "read_varint s lenlen sign = (False, n, s')"
  shows "eof s' \<or> length (fd s') < length (fd s)"
proof (cases "read_varint_loop lenlen 0 0 0 s")
  case (fields ok n0 byte s1)
  with assms(2) have "ok = False" "s1 = s'"
    by (auto simp: read_varint_def Let_def split: bool.splits if_splits)
  with fields read_varint_loop_fail [OF assms(1), of lenlen 0 0 0 n0 byte s'] show ?thesis by simp
qed

lemma read_varint_ok:
  assumes "\<not> eof s" and "read_varint s lenlen sign = (True, n, s')"
  shows "\<not> eof s' \<and> err s' = err s"
proof (cases "read_varint_loop lenlen 0 0 0 s")
  case (fields ok n0 byte s1)
  with assms(2) have "ok = True" "s1 = s'"
    by (auto simp: read_varint_def Let_def split: bool.splits if_splits)
  with fields read_varint_loop_ok [OF assms(1), of lenlen 0 0 0 n0 byte s'] show ?thesis by simp
qed

lemma read_varint_le: "read_varint s lenlen sign = (ok, n, s') \<Longrightarrow> length (fd s') \<le> length (fd s)"
  using read_varint_len [of s lenlen sign] by simp

lemma dump_varint_fail:
  assumes "\<not> eof s" and "dump_varint s lenlen sign = (False, s')"
  shows "eof s' \<or> length (fd s') < length (fd s)"
proof (cases "read_varint s lenlen sign")
  case (fields ok n s1)
  with assms(2) have "ok = False" "s1 = s'"
    by (auto simp: dump_varint_def split: bool.splits if_splits)
  with fields read_varint_fail [OF assms(1), of lenlen sign n s'] show ?thesis by simp
qed

lemma dump_float32_fail:
  assumes "\<not> eof s" and "dump_float32 h s = (False, s')"
  shows "eof s' \<or> length (fd s') < length (fd s)"
proof (cases "eread s 4")
  case (fields ok buf s1)
  with assms(2) have "ok = False" "s1 = s'"
    by (auto simp: dump_float32_def split: bool.splits)
  with fields eread_fail [OF assms(1), of 4 buf s'] show ?thesis by simp
qed

lemma dump_float64_fail:
  assumes "\<not> eof s" and "dump_float64 h s = (False, s')"
  shows "eof s' \<or> length (fd s') < length (fd s)"
proof (cases "eread s 8")
  case (fields ok buf s1)
  with assms(2) have "ok = False" "s1 = s'"
    by (auto simp: dump_float64_def split: bool.splits)
  with fields eread_fail [OF assms(1), of 8 buf s'] show ?thesis by simp
qed

lemma dump_data_fail:
  assumes "\<not> eof s" and "dump_data h s is_str len = (False, s')"
  shows "eof s' \<or> length (fd s') < length (fd s) \<or>
         err s' = err s @ ''Cannot alloc '' @ dec_nat len @ '' bytes''"
proof (cases "malloc_ok h len")
  case False
  with assms(2) show ?thesis by (auto simp: dump_data_def eputs_def)
next
  case True
  show ?thesis
  proof (cases "eread s len")
    case (fields ok data s1)
    with assms(2) True have "ok = False" "s1 = s'"
      by (auto simp: dump_data_def split: bool.splits if_splits)
    with fields eread_fail [OF assms(1), of len data s'] show ?thesis by auto
  qed
qed

lemma dump_data_var_fail:
  assumes "\<not> eof s" and "dump_data_var h s is_str lenlen = (False, s')"
  shows "eof s' \<or> length (fd s') < length (fd s) \<or>
         (\<exists>len. err s' = err s @ ''Cannot alloc '' @ dec_nat len @ '' bytes'')"
proof (cases "read_varint s lenlen False")
  case (fields ok len s1)
  show ?thesis
  proof (cases ok)
    case False
    with fields assms(2) have "s1 = s'"
      by (simp add: dump_data_var_def read_varuint_def)
    with False fields read_varint_fail [OF assms(1), of lenlen False len s'] show ?thesis by auto
  next
    case True
    with fields assms(2) have d: "dump_data h s1 is_str (unat len) = (False, s')"
      by (simp add: dump_data_var_def read_varuint_def)
    from True fields read_varint_ok [OF assms(1), of lenlen False len s1]
    have s1: "\<not> eof s1" "err s1 = err s" by simp_all
    from fields have "length (fd s1) \<le> length (fd s)" by (rule read_varint_le)
    with dump_data_fail [OF s1(1) d] s1(2) show ?thesis by auto
  qed
qed

lemma dump_ext_fail:
  assumes "\<not> eof s" and "dump_ext h s len = (False, s')"
  shows "eof s' \<or> length (fd s') < length (fd s)"
proof (cases "eread s 1")
  case (fields ok buf s1)
  with assms(2) have "ok = False" "s1 = s'"
    by (auto simp: dump_ext_def Let_def split: bool.splits)
  with fields eread_fail [OF assms(1), of 1 buf s'] show ?thesis by simp
qed

lemma dump_ext_var_fail:
  assumes "\<not> eof s" and "dump_ext_var h s lenlen = (False, s')"
  shows "eof s' \<or> length (fd s') < length (fd s)"
proof (cases "read_varint s lenlen False")
  case (fields ok len s1)
  show ?thesis
  proof (cases ok)
    case False
    with fields assms(2) have "s1 = s'"
      by (simp add: dump_ext_var_def read_varuint_def)
    with False fields read_varint_fail [OF assms(1), of lenlen False len s'] show ?thesis by auto
  next
    case True
    with fields assms(2) have d: "dump_ext h s1 (unat len) = (False, s')"
      by (simp add: dump_ext_var_def read_varuint_def)
    from True fields read_varint_ok [OF assms(1), of lenlen False len s1]
    have s1: "\<not> eof s1" by simp
    from fields have "length (fd s1) \<le> length (fd s)" by (rule read_varint_le)
    with dump_ext_fail [OF s1 d] show ?thesis by auto
  qed
qed

text \<open>A branch of \<^verbatim>\<open>dump\<close> that fails without recursion has met the end of the input,
  has taken something from it, or could not allocate.\<close>

lemma dump_leaf_fail:
  assumes "\<not> eof s" and "dump_leaf h s t c = (False, s')"
    and "\<forall>nb. c \<noteq> C_array nb" and "\<forall>l. c \<noteq> C_array_var l"
    and "\<forall>nb. c \<noteq> C_map nb" and "\<forall>l. c \<noteq> C_map_var l"
  shows "eof s' \<or> length (fd s') < length (fd s) \<or>
         (\<exists>len. err s' = err s @ ''Cannot alloc '' @ dec_nat len @ '' bytes'')"
proof (cases c)
  case (C_data is_str len)
  with assms(2) dump_data_fail [OF assms(1), of h is_str len s'] show ?thesis
    by (auto simp: dump_leaf_def)
next
  case (C_data_var is_str lenlen)
  with assms(2) dump_data_var_fail [OF assms(1), of h is_str lenlen s'] show ?thesis
    by (auto simp: dump_leaf_def)
next
  case (C_ext len)
  with assms(2) dump_ext_fail [OF assms(1), of h len s'] show ?thesis
    by (auto simp: dump_leaf_def)
next
  case (C_ext_var lenlen)
  with assms(2) dump_ext_var_fail [OF assms(1), of h lenlen s'] show ?thesis
    by (auto simp: dump_leaf_def)
next
  case C_float32
  with assms(2) dump_float32_fail [OF assms(1), of h s'] show ?thesis
    by (auto simp: dump_leaf_def)
next
  case C_float64
  with assms(2) dump_float64_fail [OF assms(1), of h s'] show ?thesis
    by (auto simp: dump_leaf_def)
qed (use assms dump_varint_fail [OF assms(1), of _ _ s'] in
      \<open>auto simp: dump_leaf_def dump_uint8_def dump_uint16_def dump_uint32_def dump_uint64_def
         dump_int8_def dump_int16_def dump_int32_def dump_int64_def dump_varuint_def
         dump_varsint_def\<close>)

text \<open>A call of \<^verbatim>\<open>dump\<close> that fails has taken something from the input.\<close>

lemma dump_fail_consumes:
  assumes "dump h s role = (False, s')"
  shows "length (fd s') < length (fd s)"
proof -
  obtain ok buf s1 where e: "eread s 1 = (ok, buf, s1)" by (cases "eread s 1") auto
  show ?thesis
  proof (cases ok)
    case False
    with assms e have s1: "s1 = s'" "\<not> eof s'" by (auto simp: dump.simps)
    have "\<not> eof s" using e False s1 by (auto simp: eread_def split: if_splits)
    from eread_fail [OF this, of 1 buf s'] e False s1 show ?thesis by simp
  next
    case True
    have lt: "length (fd s1) < length (fd s)" using eread_consumes [of 1 s] e True by simp
    let ?s2 = "dump_start s1 role"
    let ?r = "(case dispatch (hd buf) of
                   None \<Rightarrow> (False, eputs (''Bad tag '' @ hex02 (unat (hd buf)) @ [CHR 0x0A]) ?s2)
                 | Some (C_array nb_objs) \<Rightarrow> dump_array h ?s2 nb_objs
                 | Some (C_array_var lenlen) \<Rightarrow> dump_array_var h ?s2 lenlen
                 | Some (C_map nb_objs) \<Rightarrow> dump_map h ?s2 nb_objs
                 | Some (C_map_var lenlen) \<Rightarrow> dump_map_var h ?s2 lenlen
                 | Some c \<Rightarrow> dump_leaf h ?s2 (hd buf) c)"
    have r: "length (fd (snd ?r)) \<le> length (fd ?s2)"
    proof (cases "dispatch (hd buf)")
      case None
      then show ?thesis by simp
    next
      case (Some c)
      then show ?thesis
        using dump_leaf_len [of h ?s2 "hd buf" c] dump_array_len [of h ?s2]
          dump_array_var_len [of h ?s2] dump_map_len [of h ?s2] dump_map_var_len [of h ?s2]
        by (cases c) simp_all
    qed
    have "dump h s role = (case ?r of (False, s3) \<Rightarrow> (False, s3) | (True, s3) \<Rightarrow> (True, dump_stop s3 role))"
      using e True by (simp add: dump.simps Let_def)
    with r lt assms show ?thesis
      by (cases ?r) (auto split: bool.splits)
  qed
qed

lemma dump_le: "dump h s role = (ok, s') \<Longrightarrow> length (fd s') \<le> length (fd s)"
  using dump_len [of h s role] by simp

lemma dump_array_loop_fail:
  "dump_array_loop h nb n s = (False, s') \<Longrightarrow> length (fd s') < length (fd s)"
proof (induction "unat nb - unat n" arbitrary: n s rule: less_induct)
  case less
  show ?case
  proof (cases "n < nb")
    case False
    with less.prems show ?thesis by (simp add: dump_array_loop.simps [of h nb n])
  next
    case True
    obtain ok s1 where d: "dump h s (sint n) = (ok, s1)" by (cases "dump h s (sint n)") auto
    show ?thesis
    proof (cases ok)
      case False
      with True d less.prems dump_fail_consumes [of h s "sint n" s1] show ?thesis
        by (simp add: dump_array_loop.simps [of h nb n])
    next
      case ok: True
      with True d less.prems have "dump_array_loop h nb (n + 1) s1 = (False, s')"
        by (simp add: dump_array_loop.simps [of h nb n])
      from less.hyps [OF loop_counter [OF True] this] dump_le [OF d] show ?thesis by simp
    qed
  qed
qed

lemma dump_map_loop_fail:
  "dump_map_loop h nb n s = (False, s') \<Longrightarrow> length (fd s') < length (fd s)"
proof (induction "unat nb - unat n" arbitrary: n s rule: less_induct)
  case less
  show ?case
  proof (cases "n < nb")
    case False
    with less.prems show ?thesis by (simp add: dump_map_loop.simps [of h nb n])
  next
    case True
    obtain ok s1 where d: "dump h s ROLE_MAP_KEY = (ok, s1)"
      by (cases "dump h s ROLE_MAP_KEY") auto
    show ?thesis
    proof (cases ok)
      case False
      with True d less.prems dump_fail_consumes [of h s ROLE_MAP_KEY s1] show ?thesis
        by (simp add: dump_map_loop.simps [of h nb n])
    next
      case ok: True
      obtain ok2 s2 where d2: "dump h s1 ROLE_MAP_VALUE = (ok2, s2)"
        by (cases "dump h s1 ROLE_MAP_VALUE") auto
      show ?thesis
      proof (cases ok2)
        case False
        with True d ok d2 less.prems dump_fail_consumes [of h s1 ROLE_MAP_VALUE s2]
          dump_le [OF d]
        show ?thesis by (simp add: dump_map_loop.simps [of h nb n])
      next
        case ok2: True
        with True d ok d2 less.prems have "dump_map_loop h nb (n + 1) s2 = (False, s')"
          by (simp add: dump_map_loop.simps [of h nb n])
        from less.hyps [OF loop_counter [OF True] this] dump_le [OF d] dump_le [OF d2]
        show ?thesis by simp
      qed
    qed
  qed
qed

lemma dump_array_fail:
  "dump_array h s nb = (False, s') \<Longrightarrow> length (fd s') < length (fd s)"
  using dump_array_loop_fail [of h nb 0 "puts [CHR ''['', CHR 0x0A] s\<lparr>indent := indent s + 1\<rparr>" s']
  by (cases "dump_array_loop h nb 0 (puts [CHR ''['', CHR 0x0A] s\<lparr>indent := indent s + 1\<rparr>)")
     (auto simp: dump_array.simps split: bool.splits)

lemma dump_map_fail:
  "dump_map h s nb = (False, s') \<Longrightarrow> length (fd s') < length (fd s)"
  using dump_map_loop_fail [of h nb 0 "puts [CHR ''{'', CHR 0x0A] s\<lparr>indent := indent s + 1\<rparr>" s']
  by (cases "dump_map_loop h nb 0 (puts [CHR ''{'', CHR 0x0A] s\<lparr>indent := indent s + 1\<rparr>)")
     (auto simp: dump_map.simps split: bool.splits)

lemma dump_array_var_fail:
  assumes "\<not> eof s" and "dump_array_var h s lenlen = (False, s')"
  shows "eof s' \<or> length (fd s') < length (fd s)"
proof (cases "read_varint s lenlen False")
  case (fields ok len s1)
  show ?thesis
  proof (cases ok)
    case False
    with fields assms(2) have "s1 = s'"
      by (simp add: dump_array_var.simps read_varuint_def)
    with False fields read_varint_fail [OF assms(1), of lenlen False len s'] show ?thesis by auto
  next
    case True
    with fields assms(2) have "dump_array h s1 (ucast len) = (False, s')"
      by (simp add: dump_array_var.simps read_varuint_def)
    from dump_array_fail [OF this] read_varint_le [OF fields] show ?thesis by simp
  qed
qed

lemma dump_map_var_fail:
  assumes "\<not> eof s" and "dump_map_var h s lenlen = (False, s')"
  shows "eof s' \<or> length (fd s') < length (fd s)"
proof (cases "read_varint s lenlen False")
  case (fields ok len s1)
  show ?thesis
  proof (cases ok)
    case False
    with fields assms(2) have "s1 = s'"
      by (simp add: dump_map_var.simps read_varuint_def)
    with False fields read_varint_fail [OF assms(1), of lenlen False len s'] show ?thesis by auto
  next
    case True
    with fields assms(2) have "dump_map h s1 (ucast len) = (False, s')"
      by (simp add: dump_map_var.simps read_varuint_def)
    from dump_map_fail [OF this] read_varint_le [OF fields] show ?thesis by simp
  qed
qed

text \<open>
  What \<^verbatim>\<open>dump\<close> does once it has read the tag \<open>t\<close>: the call of the rule the dispatcher
  picks, then \<^verbatim>\<open>dump_stop\<close>.
\<close>

lemma dump_tag:
  assumes "\<not> eof s" and "fd s = Byte t # rest"
  shows "dump h s role =
     (case (case dispatch t of
              None \<Rightarrow> (False, eputs (''Bad tag '' @ hex02 (unat t) @ [CHR 0x0A])
                                (dump_start (s\<lparr>fd := rest, offset := offset s + 1\<rparr>) role))
            | Some (C_array nb_objs) \<Rightarrow>
                dump_array h (dump_start (s\<lparr>fd := rest, offset := offset s + 1\<rparr>) role) nb_objs
            | Some (C_array_var lenlen) \<Rightarrow>
                dump_array_var h (dump_start (s\<lparr>fd := rest, offset := offset s + 1\<rparr>) role) lenlen
            | Some (C_map nb_objs) \<Rightarrow>
                dump_map h (dump_start (s\<lparr>fd := rest, offset := offset s + 1\<rparr>) role) nb_objs
            | Some (C_map_var lenlen) \<Rightarrow>
                dump_map_var h (dump_start (s\<lparr>fd := rest, offset := offset s + 1\<rparr>) role) lenlen
            | Some c \<Rightarrow>
                dump_leaf h (dump_start (s\<lparr>fd := rest, offset := offset s + 1\<rparr>) role) t c) of
        (False, s3) \<Rightarrow> (False, s3)
      | (True, s3) \<Rightarrow> (True, dump_stop s3 role))"
proof -
  have e: "eread s 1 = (True, [t], s\<lparr>fd := rest, offset := offset s + 1\<rparr>)"
    using assms by (simp add: eread_def eread_loop.simps)
  show ?thesis
    by (simp only: dump.simps [of h s role] e prod.case bool.case Let_def list.sel)
qed

text \<open>Only the last \<^verbatim>\<open>else\<close> of \<^verbatim>\<open>dump\<close> leaves the process as the bad tag does.\<close>

lemma dump_recognised_not_bad_tag:
  assumes ne: "\<not> eof s" and f: "fd s = Byte t # rest" and d: "dispatch t = Some c"
  shows "dump h s role \<noteq>
           (False, eputs (''Bad tag '' @ hex02 (unat t) @ [CHR 0x0A])
                     (dump_start (s\<lparr>fd := rest, offset := offset s + 1\<rparr>) role))"
proof
  let ?s2 = "dump_start (s\<lparr>fd := rest, offset := offset s + 1\<rparr>) role"
  let ?B = "eputs (''Bad tag '' @ hex02 (unat t) @ [CHR 0x0A]) ?s2"
  assume bad: "dump h s role = (False, ?B)"
  have s2: "\<not> eof ?s2" using ne by simp
  have B: "\<not> eof ?B" "fd ?B = fd ?s2" "err ?B = err ?s2 @ ''Bad tag '' @ hex02 (unat t) @ [CHR 0x0A]"
    using ne by (simp_all add: eputs_def)
  have shape: "eof ?B \<or> length (fd ?B) < length (fd ?s2) \<or>
         (\<exists>len. err ?B = err ?s2 @ ''Cannot alloc '' @ dec_nat len @ '' bytes'')"
  proof (cases c)
    case (C_array nb)
    with bad d have "dump_array h ?s2 nb = (False, ?B)"
      by (simp add: dump_tag [OF ne f] split: prod.splits bool.splits)
    from dump_array_fail [OF this] show ?thesis by simp
  next
    case (C_array_var l)
    with bad d have "dump_array_var h ?s2 l = (False, ?B)"
      by (simp add: dump_tag [OF ne f] split: prod.splits bool.splits)
    from dump_array_var_fail [OF s2 this] show ?thesis by blast
  next
    case (C_map nb)
    with bad d have "dump_map h ?s2 nb = (False, ?B)"
      by (simp add: dump_tag [OF ne f] split: prod.splits bool.splits)
    from dump_map_fail [OF this] show ?thesis by simp
  next
    case (C_map_var l)
    with bad d have "dump_map_var h ?s2 l = (False, ?B)"
      by (simp add: dump_tag [OF ne f] split: prod.splits bool.splits)
    from dump_map_var_fail [OF s2 this] show ?thesis by blast
  qed (use bad d dump_leaf_fail [OF s2, of h t c ?B] in
        \<open>simp_all add: dump_tag [OF ne f] split: prod.splits bool.splits\<close>)
  with B show False by simp
qed

section \<open>A failure reaches the exit status\<close>

lemma failure_goes_up:
  assumes "dump h (fst c) (snd c) = (False, x)"
  shows "in_dump h c s role \<Longrightarrow> dump h s role = (False, x)"
    and "in_dump_array h c s nb \<Longrightarrow> dump_array h s nb = (False, x)"
    and "in_dump_array_loop h c nb n s \<Longrightarrow> dump_array_loop h nb n s = (False, x)"
    and "in_dump_array_var h c s lenlen \<Longrightarrow> dump_array_var h s lenlen = (False, x)"
    and "in_dump_map h c s nb \<Longrightarrow> dump_map h s nb = (False, x)"
    and "in_dump_map_loop h c nb n s \<Longrightarrow> dump_map_loop h nb n s = (False, x)"
    and "in_dump_map_var h c s lenlen \<Longrightarrow> dump_map_var h s lenlen = (False, x)"
proof (induction rule: in_dump_in_dump_array_in_dump_array_loop_in_dump_array_var_in_dump_map_in_dump_map_loop_in_dump_map_var.inducts)
  case (this_call s role)
  with assms show ?case by simp
next
  case (in_array s buf s1 nb_objs role)
  then show ?case by (simp add: dump.simps [of h s role])
next
  case (in_array_var s buf s1 lenlen role)
  then show ?case by (simp add: dump.simps [of h s role])
next
  case (in_map s buf s1 nb_objs role)
  then show ?case by (simp add: dump.simps [of h s role])
next
  case (in_map_var s buf s1 lenlen role)
  then show ?case by (simp add: dump.simps [of h s role])
next
  case (array_body nb_objs s)
  then show ?case by (simp add: dump_array.simps [of h s nb_objs])
next
  case (array_element n nb_objs s)
  then show ?case by (simp add: dump_array_loop.simps [of h nb_objs n s])
next
  case (array_next n nb_objs s s1)
  then show ?case by (simp add: dump_array_loop.simps [of h nb_objs n s])
next
  case (array_counted s lenlen len s1)
  then show ?case by (simp add: dump_array_var.simps [of h s lenlen])
next
  case (map_body nb_objs s)
  then show ?case by (simp add: dump_map.simps [of h s nb_objs])
next
  case (map_key n nb_objs s)
  then show ?case by (simp add: dump_map_loop.simps [of h nb_objs n s])
next
  case (map_value n nb_objs s s1)
  then show ?case by (simp add: dump_map_loop.simps [of h nb_objs n s])
next
  case (map_next n nb_objs s s1 s2)
  then show ?case by (simp add: dump_map_loop.simps [of h nb_objs n s])
next
  case (map_counted s lenlen len s1)
  then show ?case by (simp add: dump_map_var.simps [of h s lenlen])
qed

lemma failure_ends_main_loop:
  assumes "dump h (fst c) (snd c) = (False, x)"
  shows "in_main_loop h c s \<Longrightarrow> main_loop h s = (1, x)"
proof (induction rule: in_main_loop.induct)
  case (top_level s)
  with failure_goes_up(1) [OF assms, of s ROLE_NONE] show ?case
    by (simp add: main_loop.simps [of h s])
next
  case (top_next s s1)
  then show ?case by (simp add: main_loop.simps [of h s])
qed

section \<open>The tags the dispatcher knows\<close>

lemma all_less_numeral:
  "(\<forall>n<numeral k. P n) \<longleftrightarrow> P (pred_numeral k) \<and> (\<forall>n<pred_numeral k. P (n::nat))"
  by (simp add: numeral_eq_Suc less_Suc_eq) auto

lemma byte_cases: "(\<forall>t :: byte. P t) \<longleftrightarrow> (\<forall>n<256. P (word_of_nat n))"
proof
  assume "\<forall>t. P t" then show "\<forall>n<256. P (word_of_nat n)" by simp
next
  assume r: "\<forall>n<256. P (word_of_nat n)"
  show "\<forall>t. P t"
  proof
    fix t :: byte
    have "unat t < 256" using unsigned_less [of t] by simp
    with r have "P (word_of_nat (unat t))" by blast
    then show "P t" by simp
  qed
qed

lemma dispatch_None_iff: "\<forall>t. (dispatch t = None) = (t = 0xc1)"
  unfolding byte_cases
  by (simp add: all_less_numeral dispatch_def rules_def)

lemma one_rule_matches: "\<forall>t. t \<noteq> 0xc1 \<longrightarrow> length (filter (\<lambda>r. fst r t) rules) = 1"
  unfolding byte_cases
  by (simp add: all_less_numeral rules_def)

lemma recognised_tags: "{t. dispatch t \<noteq> None} = UNIV - {0xc1}"
  using dispatch_None_iff by auto

lemma dump_bad_tag:
  assumes "\<not> eof s" and "fd s = Byte t # rest" and "dispatch t = None"
  shows "dump h s role =
           (False, eputs (''Bad tag '' @ hex02 (unat t) @ [CHR 0x0A])
                     (dump_start (s\<lparr>fd := rest, offset := offset s + 1\<rparr>) role))"
  using assms by (simp add: dump.simps eread_def eread_loop.simps)

lemma find_filter: "find P xs = (case filter P xs of [] \<Rightarrow> None | x # _ \<Rightarrow> Some x)"
  by (induction xs) simp_all

lemma rule_selected:
  assumes "t \<noteq> 0xc1"
  shows "\<exists>r. filter (\<lambda>r. fst r t) rules = [r] \<and> dispatch t = Some (snd r t)"
proof -
  from one_rule_matches assms have "length (filter (\<lambda>r. fst r t) rules) = 1" by blast
  then obtain r where r: "filter (\<lambda>r. fst r t) rules = [r]"
    by (cases "filter (\<lambda>r. fst r t) rules") auto
  then have "dispatch t = Some (snd r t)"
    by (simp add: dispatch_def find_filter)
  with r show ?thesis by blast
qed

section \<open>Evaluation\<close>

lemma byte_char_0x61: "byte_char 0x61 = CHR ''a''"
  by code_simp

lemma replicate_numeral_unfold: "replicate (numeral k) x = x # replicate (pred_numeral k) x"
  by (simp add: numeral_eq_Suc)

lemmas run_simps =
  main_def ctx_ctor_def main_loop.simps dump.simps dump_array.simps dump_array_loop.simps
  dump_array_var.simps dump_map.simps dump_map_loop.simps dump_map_var.simps
  eread_def eread_loop.simps dispatch_def rules_def dump_leaf_def
  dump_nil_def dump_false_def dump_true_def dump_int_def
  dump_uint8_def dump_uint16_def dump_uint32_def dump_uint64_def
  dump_int8_def dump_int16_def dump_int32_def dump_int64_def
  dump_varuint_def dump_varsint_def dump_varint_def
  read_varuint_def read_varint_def read_varint_loop.simps
  dump_float32_def dump_float64_def object_bits_def be_word_def
  dump_data_def dump_data_var_def dump_ext_def dump_ext_var_def
  char_arg_def hex02_def hex_nat.simps printf_str_def
  dump_start_def dump_stop_def dump_indent_def puts_def eputs_def
  ROLE_NONE_def ROLE_MAP_KEY_def ROLE_MAP_VALUE_def
  dec_int_def dec_nat.simps digit_char_def Let_def replicate_numeral_unfold byte_char_0x61

section \<open>Runs on concrete inputs\<close>

text \<open>
  Claim C1 (signed fixed-width integers are sign-extended; \<^verbatim>\<open>80 00\<close> under the int16 tag
  prints -32768).  \<^verbatim>\<open>read_varint\<close> tests the byte read last, not the first one, and
  shifts the mask by \<open>lenlen\<close> bits, not \<open>8 * lenlen\<close>: on the stream \<^verbatim>\<open>d1 80 00\<close> the
  program prints 32768 and exits with status 0.
\<close>

theorem int16_min_prints_unsigned:
  "main h [Byte 0xd1, Byte 0x80, Byte 0x00] =
     (0, \<lparr>fd = [], offset = 3, indent = 0, eof = True, out = ''32768'' @ [CHR 0x0A], err = []\<rparr>)"
  by (simp add: run_simps)

text \<open>
  Claim C2 (the end of the input at the first byte of a nested value is a failure).
  \<^verbatim>\<open>dump\<close> returns \<^verbatim>\<open>ctx->eof\<close> at every depth: on the stream \<^verbatim>\<open>92 01\<close>, an array of
  two elements with one element present, the program closes the array and exits with
  status 0.
\<close>

theorem truncated_array_exits_0:
  "main h [Byte 0x92, Byte 0x01] =
     (0, \<lparr>fd = [], offset = 2, indent = 0, eof = True,
          out = ''['' @ [CHR 0x0A] @ ''   [0]: 1'' @ [CHR 0x0A] @ '']'' @ [CHR 0x0A], err = []\<rparr>)"
  by (simp add: run_simps)

text \<open>
  Claim C3 (every decode error ends the run with status 1, also a failure inside the
  payload of an extension).  \<^verbatim>\<open>dump_ext\<close> drops the result of \<^verbatim>\<open>dump_data\<close>: on the
  stream \<^verbatim>\<open>d4 05\<close>, a fixext 1 without its payload byte, the program exits with status
  0, whether the short read or the allocation is what fails.
\<close>

theorem truncated_ext_exits_0:
  "main h [Byte 0xd4, Byte 0x05] =
     (0, \<lparr>fd = [], offset = 2, indent = 0, eof = True, out = ''Type5:'' @ [CHR 0x0A],
          err = (if malloc_ok h 1 then [] else ''Cannot alloc 1 bytes'')\<rparr>)"
  by (simp add: run_simps)

text \<open>
  Claim C4 (a negative fixint tag prints its two's-complement value, between -32 and
  -1).  \<^verbatim>\<open>dump_int\<close> receives the \<^verbatim>\<open>unsigned char\<close> tag: on the stream \<^verbatim>\<open>ff\<close> the
  program prints 255.
\<close>

theorem negative_fixint_prints_unsigned:
  "main h [Byte 0xff] =
     (0, \<lparr>fd = [], offset = 1, indent = 0, eof = True, out = ''255'' @ [CHR 0x0A], err = []\<rparr>)"
  by (simp add: run_simps)

text \<open>
  Claim C5 (float payloads are taken in big-endian order, swapped on a little-endian
  host).  \<^verbatim>\<open>dump_float32\<close> reads the bytes straight into the \<^verbatim>\<open>float\<close>: on a
  little-endian host the stream \<^verbatim>\<open>ca 3f 80 00 00\<close>, the encoding of 1.0, prints the
  float whose bit pattern is \<^verbatim>\<open>0000803f\<close>, not \<^verbatim>\<open>3f800000\<close>.
\<close>

theorem float32_not_swapped:
  "out (snd (main (h\<lparr>little_endian := True\<rparr>)
               [Byte 0xca, Byte 0x3f, Byte 0x80, Byte 0x00, Byte 0x00]))
     = fmt_g32 h 0x0000803f @ [CHR 0x0A]"
  by (simp add: run_simps)

text \<open>
  Claim C6 (a binary blob prints as one two-digit pair per byte, also for the bytes
  \<^verbatim>\<open>80\<close> to \<^verbatim>\<open>ff\<close>).  \<^verbatim>\<open>dump_data\<close> holds the payload in a \<^verbatim>\<open>char *\<close>: where plain
  \<^verbatim>\<open>char\<close> is signed, the stream \<^verbatim>\<open>c4 01 ff\<close> prints eight digits for its one byte.
\<close>

theorem bin_high_byte_prints_8_digits:
  "out (snd (main (h\<lparr>char_signed := True, malloc_ok := \<lambda>_. True\<rparr>)
               [Byte 0xc4, Byte 0x01, Byte 0xff]))
     = ''ffffffff'' @ [CHR 0x0A]"
  by (simp add: run_simps unsigned_minus_1_eq_mask mask_eq_exp_minus_1)

text \<open>
  Claim C7 (a string prints its payload bytes verbatim between quotes, also a zero
  byte).  \<^verbatim>\<open>dump_data\<close> prints with \<^verbatim>\<open>%.*s\<close>, which stops at a zero byte: the stream
  \<^verbatim>\<open>a3 61 00 62\<close> prints one of its three payload bytes.
\<close>

theorem str_cut_at_zero_byte:
  "main (h\<lparr>malloc_ok := \<lambda>_. True\<rparr>) [Byte 0xa3, Byte 0x61, Byte 0x00, Byte 0x62] =
     (0, \<lparr>fd = [], offset = 4, indent = 0, eof = True,
          out = [CHR 0x22] @ ''a'' @ [CHR 0x22, CHR 0x0A], err = []\<rparr>)"
  by (simp add: run_simps)

section \<open>Properties of every run\<close>

text \<open>
  Claim C8: a stream that ends inside the payload of a string makes the program fail.
  Whenever the run of the program on \<open>input\<close> makes a call of \<^verbatim>\<open>dump\<close>, at the top level
  or inside any nesting of arrays and maps, and that call finds a string header
  declaring \<open>len\<close> bytes with fewer than \<open>len\<close> bytes left before the end of the input,
  then the call returns false, the program exits with status 1 in the very state that
  call left, nothing of the string has been printed (the output of the call is that of
  \<^verbatim>\<open>dump_start\<close>), and the error stream is as before, except for the message of a
  failed \<^verbatim>\<open>malloc\<close>: the short read is reported by the result alone.
\<close>

theorem truncated_string_fails:
  assumes "in_main h (s, role) input"
    and "\<not> eof s" and "fd s = map Byte (hdr @ payload)"
    and "str_declared hdr = Some len" and "length payload < len"
  shows "main h input = (1, snd (dump h s role)) \<and>
         fst (dump h s role) = False \<and>
         out (snd (dump h s role)) = out (dump_start s role) \<and>
         err (snd (dump h s role)) =
           (if malloc_ok h len then err s else err s @ ''Cannot alloc '' @ dec_nat len @ '' bytes'')"
proof -
  have a: "fst (dump h s role) = False \<and> out (snd (dump h s role)) = out (dump_start s role)"
    using assms(2-5) by (rule truncated_string_dump)
  then have "dump h (fst (s, role)) (snd (s, role)) = (False, snd (dump h s role))"
    by (cases "dump h s role") simp
  from failure_ends_main_loop [OF this] assms(1)
  have b: "main h input = (1, snd (dump h s role))"
    by (simp add: main_def in_main_def)
  from a b truncated_string_err [OF assms(2-5), of h role] show ?thesis by simp
qed

theorem truncated_string_fails_witness:
  "in_main \<lparr>char_signed = True, little_endian = True, malloc_ok = \<lambda>_. True,
         fmt_g32 = \<lambda>_. [], fmt_g64 = \<lambda>_. []\<rparr>
     (\<lparr>fd = [Byte 0xa4, Byte 0x61, Byte 0x62], offset = 1, indent = 1, eof = False,
       out = ''['' @ [CHR 0x0A], err = []\<rparr>, 0)
     [Byte 0x91, Byte 0xa4, Byte 0x61, Byte 0x62] \<and>
   \<not> eof \<lparr>fd = [Byte 0xa4, Byte 0x61, Byte 0x62], offset = 1, indent = 1, eof = False,
       out = ''['' @ [CHR 0x0A], err = []\<rparr> \<and>
   fd \<lparr>fd = [Byte 0xa4, Byte 0x61, Byte 0x62], offset = 1 :: 64 word, indent = 1 :: 32 word,
       eof = False, out = ''['' @ [CHR 0x0A], err = []\<rparr> = map Byte ([0xa4] @ [0x61, 0x62]) \<and>
   str_declared [0xa4] = Some 4 \<and> length [0x61, 0x62 :: byte] < 4 \<and>
   main \<lparr>char_signed = True, little_endian = True, malloc_ok = \<lambda>_. True,
         fmt_g32 = \<lambda>_. [], fmt_g64 = \<lambda>_. []\<rparr>
     [Byte 0x91, Byte 0xa4, Byte 0x61, Byte 0x62] =
     (1, \<lparr>fd = [], offset = 4, indent = 1, eof = True,
          out = ''['' @ [CHR 0x0A] @ ''   [0]: '', err = []\<rparr>)"
proof -
  let ?h = "\<lparr>char_signed = True, little_endian = True, malloc_ok = \<lambda>_. True,
         fmt_g32 = \<lambda>_. [], fmt_g64 = \<lambda>_. []\<rparr>"
  let ?s = "\<lparr>fd = [Byte 0xa4, Byte 0x61, Byte 0x62], offset = 1 :: 64 word, indent = 1 :: 32 word,
       eof = False, out = ''['' @ [CHR 0x0A], err = []\<rparr>"
  have 1: "in_main ?h (?s, 0) [Byte 0x91, Byte 0xa4, Byte 0x61, Byte 0x62]"
    unfolding in_main_def
    apply (rule top_level)
     apply (simp add: ctx_ctor_def)
    apply (rule in_array [where buf = "[0x91]" and nb_objs = 1])
      apply (simp add: ctx_ctor_def eread_def eread_loop.simps)
     apply (simp add: dispatch_def rules_def)
    apply (rule array_body)
    apply (rule array_element)
     apply simp
    apply (rule this_call)
    apply (simp add: run_simps)
    done
  have 2: "\<not> eof ?s" by simp
  have 3: "fd ?s = map Byte ([0xa4] @ [0x61, 0x62])" by simp
  have 4: "str_declared [0xa4] = Some 4" by (simp add: str_declared_def dispatch_def rules_def)
  have 5: "length [0x61, 0x62 :: byte] < 4" by simp
  have 6: "snd (dump ?h ?s 0) = \<lparr>fd = [], offset = 4, indent = 1, eof = True,
          out = ''['' @ [CHR 0x0A] @ ''   [0]: '', err = []\<rparr>"
    by (simp add: run_simps)
  from truncated_string_fails [OF 1 2 3 4 5] 1 2 3 4 5 6 show ?thesis by simp
qed

text \<open>
  Claim C9: \<^verbatim>\<open>c1\<close> is the only tag no branch of \<^verbatim>\<open>dump\<close> accepts.  The dispatcher
  finds no rule exactly for the tag \<^verbatim>\<open>c1\<close>; for every other tag exactly one rule of the
  chain matches and the dispatcher selects the call of that rule, so 255 of the 256
  tags are recognised.  In \<^verbatim>\<open>dump\<close>, once the tag \<open>t\<close> has been read: the call ends as
  the last \<^verbatim>\<open>else\<close> does (false, with \<^verbatim>\<open>Bad tag\<close> and the tag in hexadecimal on the
  error stream) exactly when \<open>t\<close> is \<^verbatim>\<open>c1\<close>; for every other tag it is the call of the
  one matching rule, followed by \<^verbatim>\<open>dump_stop\<close> when that call returns true.
\<close>

theorem bad_tag_only_c1:
  "(dispatch t = None \<longleftrightarrow> t = 0xc1) \<and>
   (t \<noteq> 0xc1 \<longrightarrow> (\<exists>r. filter (\<lambda>r. fst r t) rules = [r] \<and> dispatch t = Some (snd r t))) \<and>
   card {t. dispatch t \<noteq> None} = 255 \<and>
   (\<not> eof s \<and> fd s = Byte t # rest \<longrightarrow>
      (dump h s role =
         (False, eputs (''Bad tag '' @ hex02 (unat t) @ [CHR 0x0A])
                   (dump_start (s\<lparr>fd := rest, offset := offset s + 1\<rparr>) role))
       \<longleftrightarrow> t = 0xc1) \<and>
      (t \<noteq> 0xc1 \<longrightarrow>
        (\<exists>r. filter (\<lambda>r. fst r t) rules = [r] \<and>
           dump h s role =
             (case (case snd r t of
                      C_array nb_objs \<Rightarrow>
                        dump_array h (dump_start (s\<lparr>fd := rest, offset := offset s + 1\<rparr>) role) nb_objs
                    | C_array_var lenlen \<Rightarrow>
                        dump_array_var h (dump_start (s\<lparr>fd := rest, offset := offset s + 1\<rparr>) role) lenlen
                    | C_map nb_objs \<Rightarrow>
                        dump_map h (dump_start (s\<lparr>fd := rest, offset := offset s + 1\<rparr>) role) nb_objs
                    | C_map_var lenlen \<Rightarrow>
                        dump_map_var h (dump_start (s\<lparr>fd := rest, offset := offset s + 1\<rparr>) role) lenlen
                    | c \<Rightarrow>
                        dump_leaf h (dump_start (s\<lparr>fd := rest, offset := offset s + 1\<rparr>) role) t c) of
                (False, s3) \<Rightarrow> (False, s3)
              | (True, s3) \<Rightarrow> (True, dump_stop s3 role)))))"
proof -
  have a: "dispatch t = None \<longleftrightarrow> t = 0xc1"
    using dispatch_None_iff by (rule spec)
  have b: "t \<noteq> 0xc1 \<longrightarrow> (\<exists>r. filter (\<lambda>r. fst r t) rules = [r] \<and> dispatch t = Some (snd r t))"
    using rule_selected by blast
  have "card {t. dispatch t \<noteq> None} = card (UNIV - {0xc1 :: byte})"
    by (simp only: recognised_tags)
  then have c: "card {t. dispatch t \<noteq> None} = 255"
    by (simp add: card_Diff_singleton card_word)
  have d: "\<not> eof s \<and> fd s = Byte t # rest \<longrightarrow>
      (dump h s role =
         (False, eputs (''Bad tag '' @ hex02 (unat t) @ [CHR 0x0A])
                   (dump_start (s\<lparr>fd := rest, offset := offset s + 1\<rparr>) role))
       \<longleftrightarrow> t = 0xc1) \<and>
      (t \<noteq> 0xc1 \<longrightarrow>
        (\<exists>r. filter (\<lambda>r. fst r t) rules = [r] \<and>
           dump h s role =
             (case (case snd r t of
                      C_array nb_objs \<Rightarrow>
                        dump_array h (dump_start (s\<lparr>fd := rest, offset := offset s + 1\<rparr>) role) nb_objs
                    | C_array_var lenlen \<Rightarrow>
                        dump_array_var h (dump_start (s\<lparr>fd := rest, offset := offset s + 1\<rparr>) role) lenlen
                    | C_map nb_objs \<Rightarrow>
                        dump_map h (dump_start (s\<lparr>fd := rest, offset := offset s + 1\<rparr>) role) nb_objs
                    | C_map_var lenlen \<Rightarrow>
                        dump_map_var h (dump_start (s\<lparr>fd := rest, offset := offset s + 1\<rparr>) role) lenlen
                    | c \<Rightarrow>
                        dump_leaf h (dump_start (s\<lparr>fd := rest, offset := offset s + 1\<rparr>) role) t c) of
                (False, s3) \<Rightarrow> (False, s3)
              | (True, s3) \<Rightarrow> (True, dump_stop s3 role))))"
  proof (intro impI conjI)
    assume s: "\<not> eof s \<and> fd s = Byte t # rest"
    then have ne: "\<not> eof s" and f: "fd s = Byte t # rest" by simp_all
    show "dump h s role =
         (False, eputs (''Bad tag '' @ hex02 (unat t) @ [CHR 0x0A])
                   (dump_start (s\<lparr>fd := rest, offset := offset s + 1\<rparr>) role))
       \<longleftrightarrow> t = 0xc1"
    proof (cases "dispatch t")
      case None
      with a dump_bad_tag [OF ne f None, of h role] show ?thesis by simp
    next
      case (Some c)
      with a dump_recognised_not_bad_tag [OF ne f Some, of h role] show ?thesis by simp
    qed
  next
    assume s: "\<not> eof s \<and> fd s = Byte t # rest" and t: "t \<noteq> 0xc1"
    then have ne: "\<not> eof s" and f: "fd s = Byte t # rest" by simp_all
    from rule_selected [OF t] obtain r
      where r: "filter (\<lambda>r. fst r t) rules = [r]" and sel: "dispatch t = Some (snd r t)"
      by blast
    have "dump h s role =
             (case (case snd r t of
                      C_array nb_objs \<Rightarrow>
                        dump_array h (dump_start (s\<lparr>fd := rest, offset := offset s + 1\<rparr>) role) nb_objs
                    | C_array_var lenlen \<Rightarrow>
                        dump_array_var h (dump_start (s\<lparr>fd := rest, offset := offset s + 1\<rparr>) role) lenlen
                    | C_map nb_objs \<Rightarrow>
                        dump_map h (dump_start (s\<lparr>fd := rest, offset := offset s + 1\<rparr>) role) nb_objs
                    | C_map_var lenlen \<Rightarrow>
                        dump_map_var h (dump_start (s\<lparr>fd := rest, offset := offset s + 1\<rparr>) role) lenlen
                    | c \<Rightarrow>
                        dump_leaf h (dump_start (s\<lparr>fd := rest, offset := offset s + 1\<rparr>) role) t c) of
                (False, s3) \<Rightarrow> (False, s3)
              | (True, s3) \<Rightarrow> (True, dump_stop s3 role))"
      by (cases "snd r t") (simp_all add: dump_tag [OF ne f] sel)
    with r show "\<exists>r. filter (\<lambda>r. fst r t) rules = [r] \<and>
           dump h s role =
             (case (case snd r t of
                      C_array nb_objs \<Rightarrow>
                        dump_array h (dump_start (s\<lparr>fd := rest, offset := offset s + 1\<rparr>) role) nb_objs
                    | C_array_var lenlen \<Rightarrow>
                        dump_array_var h (dump_start (s\<lparr>fd := rest, offset := offset s + 1\<rparr>) role) lenlen
                    | C_map nb_objs \<Rightarrow>
                        dump_map h (dump_start (s\<lparr>fd := rest, offset := offset s + 1\<rparr>) role) nb_objs
                    | C_map_var lenlen \<Rightarrow>
                        dump_map_var h (dump_start (s\<lparr>fd := rest, offset := offset s + 1\<rparr>) role) lenlen
                    | c \<Rightarrow>
                        dump_leaf h (dump_start (s\<lparr>fd := rest, offset := offset s + 1\<rparr>) role) t c) of
                (False, s3) \<Rightarrow> (False, s3)
              | (True, s3) \<Rightarrow> (True, dump_stop s3 role))"
      by blast
  qed
  show ?thesis
    by (rule conjI [OF a conjI [OF b conjI [OF c d]]])
qed

theorem bad_tag_only_c1_witness:
  "(0x92 :: byte) \<noteq> 0xc1 \<and>
   \<not> eof (ctx_ctor [Byte 0x92, Byte 0x01, Byte 0xc3]) \<and>
   fd (ctx_ctor [Byte 0x92, Byte 0x01, Byte 0xc3]) = Byte 0x92 # [Byte 0x01, Byte 0xc3] \<and>
   filter (\<lambda>r. fst r (0x92 :: byte)) rules = [rules ! 22] \<and>
   dispatch 0x92 = Some (C_array 2) \<and>
   dump \<lparr>char_signed = True, little_endian = True, malloc_ok = \<lambda>_. True,
         fmt_g32 = \<lambda>_. [], fmt_g64 = \<lambda>_. []\<rparr>
     (ctx_ctor [Byte 0x92, Byte 0x01, Byte 0xc3]) ROLE_NONE \<noteq>
     (False, eputs (''Bad tag 92'' @ [CHR 0x0A])
        (dump_start ((ctx_ctor [Byte 0x92, Byte 0x01, Byte 0xc3])
           \<lparr>fd := [Byte 0x01, Byte 0xc3], offset := 1\<rparr>) ROLE_NONE)) \<and>
   dump \<lparr>char_signed = True, little_endian = True, malloc_ok = \<lambda>_. True,
         fmt_g32 = \<lambda>_. [], fmt_g64 = \<lambda>_. []\<rparr> (ctx_ctor [Byte 0xc1]) ROLE_NONE =
     (False, \<lparr>fd = [], offset = 1, indent = 0, eof = False, out = [],
              err = ''Bad tag c1'' @ [CHR 0x0A]\<rparr>)"
proof -
  let ?h = "\<lparr>char_signed = True, little_endian = True, malloc_ok = \<lambda>_. True,
         fmt_g32 = \<lambda>_. [], fmt_g64 = \<lambda>_. []\<rparr>"
  let ?s = "ctx_ctor [Byte 0x92, Byte 0x01, Byte 0xc3]"
  have 1: "(0x92 :: byte) \<noteq> 0xc1" by simp
  have 2: "\<not> eof ?s \<and> fd ?s = Byte 0x92 # [Byte 0x01, Byte 0xc3]" by (simp add: ctx_ctor_def)
  have 3: "\<not> eof (ctx_ctor [Byte 0xc1]) \<and> fd (ctx_ctor [Byte 0xc1]) = Byte 0xc1 # []"
    by (simp add: ctx_ctor_def)
  have hex: "hex02 146 = ''92''" "hex02 193 = ''c1''"
    by (simp_all add: hex02_def hex_nat.simps digit_char_def)
  note A = bad_tag_only_c1 [of "0x92" ?s "[Byte 0x01, Byte 0xc3]" ?h ROLE_NONE]
  note B = bad_tag_only_c1 [of "0xc1" "ctx_ctor [Byte 0xc1]" "[]" ?h ROLE_NONE]
  from A [THEN conjunct2, THEN conjunct1, THEN mp, OF 1] obtain r
    where r: "filter (\<lambda>r. fst r (0x92 :: byte)) rules = [r]"
      and sel: "dispatch 0x92 = Some (snd r 0x92)" by blast
  have f: "filter (\<lambda>r. fst r (0x92 :: byte)) rules = [rules ! 22]"
    by (simp add: rules_def)
  with r have "r = rules ! 22" by simp
  with sel have d: "dispatch 0x92 = Some (C_array 2)" by (simp add: rules_def)
  note D = A [THEN conjunct2, THEN conjunct2, THEN conjunct2, THEN mp, OF 2, THEN conjunct1]
  from D 1 have "dump ?h ?s ROLE_NONE \<noteq>
     (False, eputs (''Bad tag '' @ hex02 (unat (0x92 :: byte)) @ [CHR 0x0A])
        (dump_start (?s\<lparr>fd := [Byte 0x01, Byte 0xc3], offset := offset ?s + 1\<rparr>) ROLE_NONE))"
    by blast
  then have n: "dump ?h ?s ROLE_NONE \<noteq>
     (False, eputs (''Bad tag 92'' @ [CHR 0x0A])
        (dump_start (?s\<lparr>fd := [Byte 0x01, Byte 0xc3], offset := 1\<rparr>) ROLE_NONE))"
    by (simp add: hex ctx_ctor_def)
  note E = B [THEN conjunct2, THEN conjunct2, THEN conjunct2, THEN mp, OF 3, THEN conjunct1]
  from E have "dump ?h (ctx_ctor [Byte 0xc1]) ROLE_NONE =
     (False, eputs (''Bad tag '' @ hex02 (unat (0xc1 :: byte)) @ [CHR 0x0A])
        (dump_start ((ctx_ctor [Byte 0xc1])\<lparr>fd := [], offset := offset (ctx_ctor [Byte 0xc1]) + 1\<rparr>) ROLE_NONE))"
    by blast
  then have b: "dump ?h (ctx_ctor [Byte 0xc1]) ROLE_NONE =
     (False, \<lparr>fd = [], offset = 1, indent = 0, eof = False, out = [],
              err = ''Bad tag c1'' @ [CHR 0x0A]\<rparr>)"
    by (simp add: hex ctx_ctor_def dump_start_def dump_indent_def puts_def eputs_def ROLE_NONE_def
        ROLE_MAP_VALUE_def Let_def)
  from 1 2 f d n b show ?thesis by blast
qed

text \<open>
  Claim C10: a call of \<^verbatim>\<open>dump\<close> that returns true leaves the indent level as it found
  it.
\<close>

theorem indent_restored:
  "dump h s role = (True, s') \<Longrightarrow> indent s' = indent s"
  using indent_balanced(1) [of h s role] by simp

theorem indent_restored_witness:
  "dump \<lparr>char_signed = True, little_endian = True, malloc_ok = \<lambda>_. True,
         fmt_g32 = \<lambda>_. [], fmt_g64 = \<lambda>_. []\<rparr>
     \<lparr>fd = [Byte 0x92, Byte 0x81, Byte 0xa1, Byte 0x61, Byte 0x01, Byte 0xc3],
      offset = 0, indent = 7, eof = False, out = [], err = []\<rparr> (sint (0 :: 32 word)) =
   (True, \<lparr>fd = [], offset = 6, indent = 7, eof = False,
      out = replicate 21 CHR '' '' @ ''[0]: ['' @ [CHR 0x0A] @
            replicate 24 CHR '' '' @ ''[0]: {'' @ [CHR 0x0A] @
            replicate 27 CHR '' '' @ [CHR 0x22] @ ''a'' @ [CHR 0x22] @ '': 1'' @ [CHR 0x0A] @
            replicate 24 CHR '' '' @ ''}'' @ [CHR 0x0A] @
            replicate 24 CHR '' '' @ ''[1]: true'' @ [CHR 0x0A] @
            replicate 21 CHR '' '' @ '']'' @ [CHR 0x0A], err = []\<rparr>) \<and>
   indent \<lparr>fd = [], offset = 6 :: 64 word, indent = 7 :: 32 word, eof = False,
      out = replicate 21 CHR '' '' @ ''[0]: ['' @ [CHR 0x0A] @
            replicate 24 CHR '' '' @ ''[0]: {'' @ [CHR 0x0A] @
            replicate 27 CHR '' '' @ [CHR 0x22] @ ''a'' @ [CHR 0x22] @ '': 1'' @ [CHR 0x0A] @
            replicate 24 CHR '' '' @ ''}'' @ [CHR 0x0A] @
            replicate 24 CHR '' '' @ ''[1]: true'' @ [CHR 0x0A] @
            replicate 21 CHR '' '' @ '']'' @ [CHR 0x0A], err = []\<rparr> = 7"
proof -
  have run: "dump \<lparr>char_signed = True, little_endian = True, malloc_ok = \<lambda>_. True,
         fmt_g32 = \<lambda>_. [], fmt_g64 = \<lambda>_. []\<rparr>
     \<lparr>fd = [Byte 0x92, Byte 0x81, Byte 0xa1, Byte 0x61, Byte 0x01, Byte 0xc3],
      offset = 0, indent = 7, eof = False, out = [], err = []\<rparr> (sint (0 :: 32 word)) =
   (True, \<lparr>fd = [], offset = 6, indent = 7, eof = False,
      out = replicate 21 CHR '' '' @ ''[0]: ['' @ [CHR 0x0A] @
            replicate 24 CHR '' '' @ ''[0]: {'' @ [CHR 0x0A] @
            replicate 27 CHR '' '' @ [CHR 0x22] @ ''a'' @ [CHR 0x22] @ '': 1'' @ [CHR 0x0A] @
            replicate 24 CHR '' '' @ ''}'' @ [CHR 0x0A] @
            replicate 24 CHR '' '' @ ''[1]: true'' @ [CHR 0x0A] @
            replicate 21 CHR '' '' @ '']'' @ [CHR 0x0A], err = []\<rparr>)"
    by (simp add: run_simps)
  from indent_restored [OF run] run show ?thesis by simp
qed

end
